theory Spec2Isabelle
  imports Complex_Main "HOL-Library.Signed_Division"
begin

section \<open>Floating-point scalars\<close>

text \<open>
  The program computes on C++ \<open>float\<close>, the binary32 format of IEEE 754. A \<open>float\<close> is
  modelled by the real number it denotes, and every arithmetic operation by the exact
  operation followed by one rounding \<open>fl\<close>: to the nearest binary32 number, ties going
  to the even mantissa, with gradual underflow below \<open>2^(-126)\<close>. \<open>expo x\<close> is the
  exponent of the binade of \<open>x\<close> (at least \<open>-126\<close>), \<open>ulp x\<close> the spacing of the \<open>float\<close>
  numbers there, and \<open>f32 x\<close> says that \<open>x\<close> is a \<open>float\<close>.

  What the model leaves out: the exponent has no upper bound, so there is no overflow
  to infinity and no NaN, and a division by zero gives HOL's \<open>x / 0 = 0\<close>; each
  operation is rounded on its own, as a compiler does that neither fuses a
  multiplication with an addition nor keeps intermediate results in a wider format.
  \<open>int\<close> and \<open>size_t\<close> indices are unbounded integers and naturals (keyframe counts stay
  far below the machine bounds).

  \<open>std::sqrt\<close> is correctly rounded by IEEE 754. \<open>std::sin\<close>, \<open>std::cos\<close> and \<open>std::acos\<close>
  are whatever the platform's mathematical library computes: they are a parameter
  \<open>libm\<close> of the model.
\<close>

definition round_even :: "real \<Rightarrow> int" where
  "round_even y =
     (let f = \<lfloor>y\<rfloor>; d = y - of_int f in
      if d < 1 / 2 then f else if 1 / 2 < d then f + 1 else if even f then f else f + 1)"

function expo_up :: "real \<Rightarrow> int \<Rightarrow> int" where
  "expo_up x e = (if 2 \<le> x then expo_up (x / 2) (e + 1) else e)"
  by pat_completeness auto

termination
proof (relation "measure (\<lambda>(x, e). nat \<lfloor>x\<rfloor>)")
  show "wf (measure (\<lambda>(x :: real, e :: int). nat \<lfloor>x\<rfloor>))"
    by simp
next
  fix x :: real and e :: int
  assume two: "2 \<le> x"
  have "x / 2 < of_int \<lfloor>x\<rfloor>"
  proof -
    have "x < of_int \<lfloor>x\<rfloor> + 1" by linarith
    moreover have "2 \<le> (of_int \<lfloor>x\<rfloor> :: real)" using two by (simp add: le_floor_iff)
    ultimately show ?thesis by linarith
  qed
  then have "\<lfloor>x / 2\<rfloor> < \<lfloor>x\<rfloor>" by (simp add: floor_less_iff)
  moreover have "0 < \<lfloor>x\<rfloor>" using two by (simp add: less_floor_iff)
  ultimately show "((x / 2, e + 1), (x, e)) \<in> measure (\<lambda>(x, e). nat \<lfloor>x\<rfloor>)"
    by simp
qed

function expo_down :: "real \<Rightarrow> int \<Rightarrow> int" where
  "expo_down x e = (if x < 1 \<and> - 126 < e then expo_down (2 * x) (e - 1) else e)"
  by pat_completeness auto

termination
  by (relation "measure (\<lambda>(x, e). nat (e + 126))") simp_all

declare expo_up.simps [simp del]

declare expo_down.simps [simp del]

definition expo :: "real \<Rightarrow> int" where
  "expo x = (if 1 \<le> \<bar>x\<bar> then expo_up \<bar>x\<bar> 0 else expo_down \<bar>x\<bar> 0)"

definition ulp :: "real \<Rightarrow> real" where
  "ulp x = 2 powi (expo x - 23)"

definition fl :: "real \<Rightarrow> real" where
  "fl x = of_int (round_even (x / ulp x)) * ulp x"

definition f32 :: "real \<Rightarrow> bool" where
  "f32 x = (fl x = x)"

definition fadd :: "real \<Rightarrow> real \<Rightarrow> real" where
  "fadd a b = fl (a + b)"

definition fsub :: "real \<Rightarrow> real \<Rightarrow> real" where
  "fsub a b = fl (a - b)"

definition fmul :: "real \<Rightarrow> real \<Rightarrow> real" where
  "fmul a b = fl (a * b)"

definition fdiv :: "real \<Rightarrow> real \<Rightarrow> real" where
  "fdiv a b = fl (a / b)"

definition fsqrt :: "real \<Rightarrow> real" where
  "fsqrt a = fl (sqrt a)"

record libm =
  sinf :: "real \<Rightarrow> real"
  cosf :: "real \<Rightarrow> real"
  acosf :: "real \<Rightarrow> real"

section \<open>The vector library\<close>

text \<open>
  The types \<open>glm::vec3\<close>, \<open>glm::vec4\<close>, \<open>glm::quat\<close> and \<open>glm::mat4\<close> and the
  functions on them belong to the GLM library, which the repository only includes.
  They are written out here after GLM's definitions, operation by operation in the
  order in which GLM's expressions evaluate them, matrices column by column as GLM
  stores them.
\<close>

datatype vec3 = Vec3 (vx: real) (vy: real) (vz: real)

datatype vec4 = Vec4 (v4x: real) (v4y: real) (v4z: real) (v4w: real)

datatype quat = Quat (qw: real) (qx: real) (qy: real) (qz: real)

datatype mat4 = Mat4 (col0: vec4) (col1: vec4) (col2: vec4) (col3: vec4)

definition vadd :: "vec3 \<Rightarrow> vec3 \<Rightarrow> vec3" where
  "vadd a b = Vec3 (fadd (vx a) (vx b)) (fadd (vy a) (vy b)) (fadd (vz a) (vz b))"

definition vsub :: "vec3 \<Rightarrow> vec3 \<Rightarrow> vec3" where
  "vsub a b = Vec3 (fsub (vx a) (vx b)) (fsub (vy a) (vy b)) (fsub (vz a) (vz b))"

definition vneg :: "vec3 \<Rightarrow> vec3" where
  "vneg a = Vec3 (- vx a) (- vy a) (- vz a)"

definition smul :: "real \<Rightarrow> vec3 \<Rightarrow> vec3" where
  "smul k a = Vec3 (fmul k (vx a)) (fmul k (vy a)) (fmul k (vz a))"

definition vdot :: "vec3 \<Rightarrow> vec3 \<Rightarrow> real" where
  "vdot a b = fadd (fadd (fmul (vx a) (vx b)) (fmul (vy a) (vy b))) (fmul (vz a) (vz b))"

definition v4add :: "vec4 \<Rightarrow> vec4 \<Rightarrow> vec4" where
  "v4add a b =
     Vec4 (fadd (v4x a) (v4x b)) (fadd (v4y a) (v4y b))
          (fadd (v4z a) (v4z b)) (fadd (v4w a) (v4w b))"

definition v4smul :: "vec4 \<Rightarrow> real \<Rightarrow> vec4" where
  "v4smul a k = Vec4 (fmul (v4x a) k) (fmul (v4y a) k) (fmul (v4z a) k) (fmul (v4w a) k)"

definition mat4_identity :: mat4 where
  \<comment> \<open>\<open>glm::mat4(1.0f)\<close>\<close>
  "mat4_identity = Mat4 (Vec4 1 0 0 0) (Vec4 0 1 0 0) (Vec4 0 0 1 0) (Vec4 0 0 0 1)"

definition mat4_apply :: "mat4 \<Rightarrow> vec4 \<Rightarrow> vec4" where
  \<comment> \<open>one column of a matrix product:
      \<open>m[0] * v[0] + m[1] * v[1] + m[2] * v[2] + m[3] * v[3]\<close>\<close>
  "mat4_apply m v =
     v4add (v4add (v4add (v4smul (col0 m) (v4x v)) (v4smul (col1 m) (v4y v)))
                  (v4smul (col2 m) (v4z v)))
           (v4smul (col3 m) (v4w v))"

definition mat4_mul :: "mat4 \<Rightarrow> mat4 \<Rightarrow> mat4" where
  \<comment> \<open>\<open>operator*\<close> on \<open>glm::mat4\<close>\<close>
  "mat4_mul a b =
     Mat4 (mat4_apply a (col0 b)) (mat4_apply a (col1 b))
          (mat4_apply a (col2 b)) (mat4_apply a (col3 b))"

definition translate :: "mat4 \<Rightarrow> vec3 \<Rightarrow> mat4" where
  \<comment> \<open>\<open>glm::translate(m, v)\<close>: the last column becomes \<open>m[0]*v.x + m[1]*v.y + m[2]*v.z + m[3]\<close>\<close>
  "translate m v =
     Mat4 (col0 m) (col1 m) (col2 m)
          (v4add (v4add (v4add (v4smul (col0 m) (vx v)) (v4smul (col1 m) (vy v)))
                        (v4smul (col2 m) (vz v)))
                 (col3 m))"

definition radians :: "real \<Rightarrow> real" where
  \<comment> \<open>\<open>glm::radians\<close>: degrees times the \<open>float\<close> nearest to \<open>pi / 180\<close>, which is
      \<open>9370165 / 2^29\<close>\<close>
  "radians d = fmul d (9370165 / 536870912)"

definition vradians :: "vec3 \<Rightarrow> vec3" where
  "vradians a = Vec3 (radians (vx a)) (radians (vy a)) (radians (vz a))"

definition vnormalize :: "vec3 \<Rightarrow> vec3" where
  \<comment> \<open>\<open>glm::normalize(v)\<close>: \<open>v * inversesqrt(dot(v, v))\<close>, where \<open>inversesqrt(x)\<close> is
      \<open>1 / sqrt(x)\<close>\<close>
  "vnormalize a = smul (fdiv 1 (fsqrt (vdot a a))) a"

definition rotate :: "libm \<Rightarrow> mat4 \<Rightarrow> real \<Rightarrow> vec3 \<Rightarrow> mat4" where
  \<comment> \<open>\<open>glm::rotate(m, angle, v)\<close>: \<open>m\<close> times the rotation by \<open>angle\<close> about the axis \<open>v\<close>\<close>
  "rotate lm m angle v =
     (let c = cosf lm angle; s = sinf lm angle;
          axis = vnormalize v;
          temp = smul (fsub 1 c) axis;
          r00 = fadd c (fmul (vx temp) (vx axis));
          r01 = fadd (fmul (vx temp) (vy axis)) (fmul s (vz axis));
          r02 = fsub (fmul (vx temp) (vz axis)) (fmul s (vy axis));
          r10 = fsub (fmul (vy temp) (vx axis)) (fmul s (vz axis));
          r11 = fadd c (fmul (vy temp) (vy axis));
          r12 = fadd (fmul (vy temp) (vz axis)) (fmul s (vx axis));
          r20 = fadd (fmul (vz temp) (vx axis)) (fmul s (vy axis));
          r21 = fsub (fmul (vz temp) (vy axis)) (fmul s (vx axis));
          r22 = fadd c (fmul (vz temp) (vz axis))
      in Mat4 (v4add (v4add (v4smul (col0 m) r00) (v4smul (col1 m) r01)) (v4smul (col2 m) r02))
              (v4add (v4add (v4smul (col0 m) r10) (v4smul (col1 m) r11)) (v4smul (col2 m) r12))
              (v4add (v4add (v4smul (col0 m) r20) (v4smul (col1 m) r21)) (v4smul (col2 m) r22))
              (col3 m))"

definition mat4_cast :: "quat \<Rightarrow> mat4" where
  \<comment> \<open>\<open>glm::mat4_cast\<close>: the rotation matrix of a quaternion\<close>
  "mat4_cast q =
     (let qxx = fmul (qx q) (qx q); qyy = fmul (qy q) (qy q); qzz = fmul (qz q) (qz q);
          qxz = fmul (qx q) (qz q); qxy = fmul (qx q) (qy q); qyz = fmul (qy q) (qz q);
          qwx = fmul (qw q) (qx q); qwy = fmul (qw q) (qy q); qwz = fmul (qw q) (qz q)
      in Mat4 (Vec4 (fsub 1 (fmul 2 (fadd qyy qzz))) (fmul 2 (fadd qxy qwz))
                    (fmul 2 (fsub qxz qwy)) 0)
              (Vec4 (fmul 2 (fsub qxy qwz)) (fsub 1 (fmul 2 (fadd qxx qzz)))
                    (fmul 2 (fadd qyz qwx)) 0)
              (Vec4 (fmul 2 (fadd qxz qwy)) (fmul 2 (fsub qyz qwx))
                    (fsub 1 (fmul 2 (fadd qxx qyy))) 0)
              (Vec4 0 0 0 1))"

definition quat_from_euler :: "libm \<Rightarrow> vec3 \<Rightarrow> quat" where
  \<comment> \<open>the constructor \<open>glm::quat(vec3 eulerAngles)\<close>, angles in radians\<close>
  "quat_from_euler lm e =
     (let cx = cosf lm (fmul (vx e) (1 / 2)); cy = cosf lm (fmul (vy e) (1 / 2));
          cz = cosf lm (fmul (vz e) (1 / 2));
          sx = sinf lm (fmul (vx e) (1 / 2)); sy = sinf lm (fmul (vy e) (1 / 2));
          sz = sinf lm (fmul (vz e) (1 / 2))
      in Quat (fadd (fmul (fmul cx cy) cz) (fmul (fmul sx sy) sz))
              (fsub (fmul (fmul sx cy) cz) (fmul (fmul cx sy) sz))
              (fadd (fmul (fmul cx sy) cz) (fmul (fmul sx cy) sz))
              (fsub (fmul (fmul cx cy) sz) (fmul (fmul sx sy) cz)))"

definition qdot :: "quat \<Rightarrow> quat \<Rightarrow> real" where
  \<comment> \<open>\<open>glm::dot\<close> on quaternions: \<open>(w*w + x*x) + (y*y + z*z)\<close>\<close>
  "qdot a b =
     fadd (fadd (fmul (qw a) (qw b)) (fmul (qx a) (qx b)))
          (fadd (fmul (qy a) (qy b)) (fmul (qz a) (qz b)))"

definition qneg :: "quat \<Rightarrow> quat" where
  "qneg q = Quat (- qw q) (- qx q) (- qy q) (- qz q)"

definition qadd :: "quat \<Rightarrow> quat \<Rightarrow> quat" where
  "qadd a b =
     Quat (fadd (qw a) (qw b)) (fadd (qx a) (qx b)) (fadd (qy a) (qy b)) (fadd (qz a) (qz b))"

definition qsmul :: "real \<Rightarrow> quat \<Rightarrow> quat" where
  "qsmul k q = Quat (fmul (qw q) k) (fmul (qx q) k) (fmul (qy q) k) (fmul (qz q) k)"

definition qsdiv :: "quat \<Rightarrow> real \<Rightarrow> quat" where
  "qsdiv q k = Quat (fdiv (qw q) k) (fdiv (qx q) k) (fdiv (qy q) k) (fdiv (qz q) k)"

definition mix :: "real \<Rightarrow> real \<Rightarrow> real \<Rightarrow> real" where
  \<comment> \<open>\<open>glm::mix(x, y, a)\<close>: \<open>x * (1 - a) + y * a\<close>\<close>
  "mix x y a = fadd (fmul x (fsub 1 a)) (fmul y a)"

definition glm_epsilon :: real where
  \<comment> \<open>\<open>glm::epsilon<float>()\<close>, the machine epsilon of \<open>float\<close>\<close>
  "glm_epsilon = 1 / 2 ^ 23"

definition slerp :: "libm \<Rightarrow> quat \<Rightarrow> quat \<Rightarrow> real \<Rightarrow> quat" where
  \<comment> \<open>\<open>glm::slerp(x, y, a)\<close>: \<open>y\<close> is negated when the dot product is negative, and
      the blend is linear when the two quaternions almost coincide\<close>
  "slerp lm x y a =
     (let cosTheta0 = qdot x y;
          z = (if cosTheta0 < 0 then qneg y else y);
          cosTheta = (if cosTheta0 < 0 then - cosTheta0 else cosTheta0)
      in if cosTheta > fsub 1 glm_epsilon
         then Quat (mix (qw x) (qw z) a) (mix (qx x) (qx z) a)
                   (mix (qy x) (qy z) a) (mix (qz x) (qz z) a)
         else (let angle = acosf lm cosTheta
               in qsdiv (qadd (qsmul (sinf lm (fmul (fsub 1 a) angle)) x)
                              (qsmul (sinf lm (fmul a angle)) z))
                        (sinf lm angle)))"

definition clamp :: "real \<Rightarrow> real \<Rightarrow> real \<Rightarrow> real" where
  \<comment> \<open>\<open>glm::clamp(x, lo, hi)\<close>: \<open>min(max(x, lo), hi)\<close>\<close>
  "clamp x lo hi = min (max x lo) hi"

section \<open>Keyframes and the motion controller\<close>

record KeyFrame =
  position :: vec3
  eulerAngles :: vec3
  quaternion :: quat
  time :: real

definition KeyFrame_euler :: "libm \<Rightarrow> vec3 \<Rightarrow> vec3 \<Rightarrow> real \<Rightarrow> KeyFrame" where
  \<comment> \<open>the constructor \<open>KeyFrame(pos, euler, t)\<close>: the quaternion is derived from the angles\<close>
  "KeyFrame_euler lm pos euler t =
     \<lparr>position = pos, eulerAngles = euler,
      quaternion = quat_from_euler lm (vradians euler), time = t\<rparr>"

record SegmentData =
  p0 :: vec3
  p1 :: vec3
  p2 :: vec3
  p3 :: vec3
  e0 :: vec3
  e1 :: vec3
  e2 :: vec3
  e3 :: vec3
  q1 :: quat
  q2 :: quat
  startTime :: real
  endTime :: real
  duration :: real

record controller =
  keyframes :: "KeyFrame list"
  lastSegment :: int
  lastTime :: real
  cachedTransform :: mat4
  segments :: "SegmentData list"
  segmentsCached :: bool

definition initial_controller :: controller where
  \<comment> \<open>the member initialisers of \<open>OptimizedMotionController\<close>\<close>
  "initial_controller =
     \<lparr>keyframes = [], lastSegment = 0, lastTime = - 1, cachedTransform = mat4_identity,
      segments = [], segmentsCached = False\<rparr>"

subsection \<open>Angle normalisation\<close>

text \<open>
  \<open>normalizeAngles\<close> runs, on each of the three components, the loop
  \<open>while (result - reference > 180) result -= 360\<close> and then the loop
  \<open>while (result - reference < -180) result += 360\<close>. In \<open>float\<close> arithmetic a step can
  leave \<open>result\<close> unchanged, and then the loop does not end: the functions are partial,
  and \<open>None\<close> stands for a call that never returns. It is passed on by
  \<open>precomputeSegments\<close> and \<open>getTransformationMatrix\<close>.
\<close>

partial_function (option) wrap_down :: "real \<Rightarrow> real \<Rightarrow> real option" where
  "wrap_down result reference =
     (if fsub result reference > 180 then wrap_down (fsub result 360) reference
      else Some result)"

partial_function (option) wrap_up :: "real \<Rightarrow> real \<Rightarrow> real option" where
  "wrap_up result reference =
     (if fsub result reference < - 180 then wrap_up (fadd result 360) reference
      else Some result)"

definition normalizeAxis :: "real \<Rightarrow> real \<Rightarrow> real option" where
  \<comment> \<open>one iteration of the \<open>for\<close> loop: the two \<open>while\<close> loops in sequence\<close>
  "normalizeAxis result reference =
     (case wrap_down result reference of
        None \<Rightarrow> None
      | Some r \<Rightarrow> wrap_up r reference)"

definition normalizeAngles :: "vec3 \<Rightarrow> vec3 \<Rightarrow> vec3 option" where
  "normalizeAngles angles reference =
     (case normalizeAxis (vx angles) (vx reference) of
        None \<Rightarrow> None
      | Some x \<Rightarrow>
         (case normalizeAxis (vy angles) (vy reference) of
            None \<Rightarrow> None
          | Some y \<Rightarrow>
             (case normalizeAxis (vz angles) (vz reference) of
                None \<Rightarrow> None
              | Some z \<Rightarrow> Some (Vec3 x y z))))"

subsection \<open>Segment precomputation\<close>

definition makeSegment :: "KeyFrame list \<Rightarrow> nat \<Rightarrow> SegmentData option" where
  \<comment> \<open>the body of the loop of \<open>precomputeSegments\<close> for the index \<open>i\<close>; the loop
      runs for \<open>i + 1 < keyframes.size()\<close>, which keeps the four reads in range\<close>
  "makeSegment kfs i =
     (let k0 = kfs ! nat (max 0 (int i - 1));
          k1 = kfs ! i;
          k2 = kfs ! (i + 1);
          k3 = kfs ! min (i + 2) (length kfs - 1);
          seg_e1 = eulerAngles k1
      in case normalizeAngles (eulerAngles k0) seg_e1 of
           None \<Rightarrow> None
         | Some seg_e0 \<Rightarrow>
            (case normalizeAngles (eulerAngles k2) seg_e1 of
               None \<Rightarrow> None
             | Some seg_e2 \<Rightarrow>
                (case normalizeAngles (eulerAngles k3) seg_e2 of
                   None \<Rightarrow> None
                 | Some seg_e3 \<Rightarrow>
                     Some \<lparr>p0 = position k0, p1 = position k1, p2 = position k2,
                           p3 = position k3,
                           e0 = seg_e0, e1 = seg_e1, e2 = seg_e2, e3 = seg_e3,
                           q1 = quaternion k1, q2 = quaternion k2,
                           startTime = time k1, endTime = time k2,
                           duration = fsub (time k2) (time k1)\<rparr>)))"

definition buildSegments :: "KeyFrame list \<Rightarrow> SegmentData list option" where
  \<comment> \<open>\<open>segments.clear()\<close> followed by one \<open>push_back\<close> for each \<open>i\<close> from \<open>0\<close> to \<open>size - 2\<close>\<close>
  "buildSegments kfs = those (map (makeSegment kfs) [0 ..< length kfs - 1])"

definition precomputeSegments :: "controller \<Rightarrow> controller option" where
  "precomputeSegments c =
     (if segmentsCached c \<or> length (keyframes c) < 2 then Some c
      else
        (case buildSegments (keyframes c) of
           None \<Rightarrow> None
         | Some segs \<Rightarrow> Some (c\<lparr>segments := segs, segmentsCached := True\<rparr>)))"

subsection \<open>Segment lookup\<close>

text \<open>
  \<open>segments[i]\<close> with an \<open>int\<close> index outside the vector is undefined behaviour in
  C++; the model returns \<open>None\<close> there, and \<open>findSegment\<close> and
  \<open>getTransformationMatrix\<close> pass it on.
\<close>

definition seg_at :: "SegmentData list \<Rightarrow> int \<Rightarrow> SegmentData option" where
  "seg_at segs i = (if 0 \<le> i \<and> i < int (length segs) then Some (segs ! nat i) else None)"

definition covers :: "SegmentData list \<Rightarrow> int \<Rightarrow> real \<Rightarrow> bool option" where
  \<comment> \<open>\<open>time >= segments[i].startTime && time <= segments[i].endTime\<close>\<close>
  "covers segs i t =
     (case seg_at segs i of
        None \<Rightarrow> None
      | Some s \<Rightarrow> Some (t \<ge> startTime s \<and> t \<le> endTime s))"

lemma sdiv_two_between:
  fixes l r :: int
  assumes "l \<le> r"
  shows "l \<le> (l + r) sdiv 2 \<and> (l + r) sdiv 2 \<le> r"
proof (cases "0 \<le> l + r")
  case True
  then have "(l + r) sdiv 2 = (l + r) div 2"
    by (simp add: signed_divide_int_def sgn_if)
  with assms show ?thesis by linarith
next
  case False
  then have neg: "l + r < 0" by simp
  then have "(l + r) sdiv 2 = - ((- (l + r)) div 2)"
    by (simp add: signed_divide_int_def sgn_if)
  with assms neg show ?thesis by linarith
qed

function bsearch :: "SegmentData list \<Rightarrow> real \<Rightarrow> int \<Rightarrow> int \<Rightarrow> int option" where
  \<comment> \<open>the \<open>while (left <= right)\<close> loop of \<open>findSegment\<close> and the clamped return after it;
      \<open>sdiv\<close> is the truncating division of C++\<close>
  "bsearch segs t left right =
     (if left \<le> right then
        (let mid = (left + right) sdiv 2 in
         case seg_at segs mid of
           None \<Rightarrow> None
         | Some s \<Rightarrow>
             if t < startTime s then bsearch segs t left (mid - 1)
             else if t > endTime s then bsearch segs t (mid + 1) right
             else Some mid)
      else Some (max 0 (min right (int (length segs) - 1))))"
  by pat_completeness auto

termination
proof (relation "measure (\<lambda>(segs, t, left, right). nat (right - left + 1))")
  show "wf (measure (\<lambda>(segs :: SegmentData list, t :: real, left, right). nat (right - left + 1)))"
    by simp
next
  fix segs :: "SegmentData list" and t :: real and left right mid :: int and s
  assume "left \<le> right" "mid = (left + right) sdiv 2"
  then have "left \<le> mid \<and> mid \<le> right" using sdiv_two_between by simp
  then show "((segs, t, left, mid - 1), (segs, t, left, right))
      \<in> measure (\<lambda>(segs, t, left, right). nat (right - left + 1))"
    by simp
next
  fix segs :: "SegmentData list" and t :: real and left right mid :: int and s
  assume "left \<le> right" "mid = (left + right) sdiv 2"
  then have "left \<le> mid \<and> mid \<le> right" using sdiv_two_between by simp
  then show "((segs, t, mid + 1, right), (segs, t, left, right))
      \<in> measure (\<lambda>(segs, t, left, right). nat (right - left + 1))"
    by simp
qed

declare bsearch.simps [simp del]

definition findSegment :: "controller \<Rightarrow> real \<Rightarrow> int option" where
  "findSegment c t =
     (if length (keyframes c) < 2 then Some 0
      else
        (let segs = segments c; n = int (length segs); ls = lastSegment c in
         case (if ls < n then covers segs ls t else Some False) of
           None \<Rightarrow> None
         | Some True \<Rightarrow> Some ls
         | Some False \<Rightarrow>
            (case (if ls + 1 < n then covers segs (ls + 1) t else Some False) of
               None \<Rightarrow> None
             | Some True \<Rightarrow> Some (ls + 1)
             | Some False \<Rightarrow>
                (case (if ls > 0 then covers segs (ls - 1) t else Some False) of
                   None \<Rightarrow> None
                 | Some True \<Rightarrow> Some (ls - 1)
                 | Some False \<Rightarrow> bsearch segs t 0 (n - 1)))))"

subsection \<open>Spline blends\<close>

definition catmullRom :: "real \<Rightarrow> vec3 \<Rightarrow> vec3 \<Rightarrow> vec3 \<Rightarrow> vec3 \<Rightarrow> vec3" where
  \<comment> \<open>the expression shared by \<open>fastCatmullRomPosition\<close> and \<open>fastCatmullRomEuler\<close>\<close>
  "catmullRom t a0 a1 a2 a3 =
     (let t2 = fmul t t; t3 = fmul t2 t in
      smul (1 / 2)
        (vadd (vadd (vadd (smul 2 a1)
                          (smul t (vadd (vneg a0) a2)))
                    (smul t2 (vsub (vadd (vsub (smul 2 a0) (smul 5 a1)) (smul 4 a2)) a3)))
              (smul t3 (vadd (vsub (vadd (vneg a0) (smul 3 a1)) (smul 3 a2)) a3))))"

definition bspline :: "real \<Rightarrow> vec3 \<Rightarrow> vec3 \<Rightarrow> vec3 \<Rightarrow> vec3 \<Rightarrow> vec3" where
  \<comment> \<open>the expression shared by \<open>fastBSplinePosition\<close> and \<open>fastBSplineEuler\<close>;
      \<open>1.0f / 6.0f\<close> is one rounded division\<close>
  "bspline t a0 a1 a2 a3 =
     (let t2 = fmul t t; t3 = fmul t2 t in
      smul (fdiv 1 6)
        (vadd (vadd (vadd (smul (fadd (fsub (fadd (- t3) (fmul 3 t2)) (fmul 3 t)) 1) a0)
                          (smul (fadd (fsub (fmul 3 t3) (fmul 6 t2)) 4) a1))
                    (smul (fadd (fadd (fadd (fmul (- 3) t3) (fmul 3 t2)) (fmul 3 t)) 1) a2))
              (smul t3 a3)))"

definition fastCatmullRomPosition :: "real \<Rightarrow> SegmentData \<Rightarrow> vec3" where
  "fastCatmullRomPosition t seg = catmullRom t (p0 seg) (p1 seg) (p2 seg) (p3 seg)"

definition fastCatmullRomEuler :: "real \<Rightarrow> SegmentData \<Rightarrow> vec3" where
  "fastCatmullRomEuler t seg = catmullRom t (e0 seg) (e1 seg) (e2 seg) (e3 seg)"

definition fastBSplinePosition :: "real \<Rightarrow> SegmentData \<Rightarrow> vec3" where
  "fastBSplinePosition t seg = bspline t (p0 seg) (p1 seg) (p2 seg) (p3 seg)"

definition fastBSplineEuler :: "real \<Rightarrow> SegmentData \<Rightarrow> vec3" where
  "fastBSplineEuler t seg = bspline t (e0 seg) (e1 seg) (e2 seg) (e3 seg)"

subsection \<open>Store mutation\<close>

definition addKeyFrame :: "KeyFrame \<Rightarrow> controller \<Rightarrow> controller" where
  "addKeyFrame kf c =
     c\<lparr>keyframes := keyframes c @ [kf], segmentsCached := False, lastTime := - 1\<rparr>"

definition addMultipleKeyFrames :: "KeyFrame list \<Rightarrow> controller \<Rightarrow> controller" where
  \<comment> \<open>the loop pushes the elements of \<open>kfs\<close> in order; \<open>reserve\<close> changes capacity only\<close>
  "addMultipleKeyFrames kfs c =
     c\<lparr>keyframes := foldl (\<lambda>ks kf. ks @ [kf]) (keyframes c) kfs,
       segmentsCached := False, lastTime := - 1\<rparr>"

definition clearKeyFrames :: "controller \<Rightarrow> controller" where
  "clearKeyFrames c =
     c\<lparr>keyframes := [], segments := [], segmentsCached := False,
       lastSegment := 0, lastTime := - 1\<rparr>"

subsection \<open>Evaluation\<close>

definition eulerRotation :: "libm \<Rightarrow> vec3 \<Rightarrow> mat4" where
  \<comment> \<open>the three nested \<open>glm::rotate\<close> calls: about X, then Y, then Z, angles in degrees\<close>
  "eulerRotation lm e =
     rotate lm (rotate lm (rotate lm mat4_identity (radians (vx e)) (Vec3 1 0 0))
                          (radians (vy e)) (Vec3 0 1 0))
               (radians (vz e)) (Vec3 0 0 1)"

definition keyframePose :: "libm \<Rightarrow> bool \<Rightarrow> KeyFrame \<Rightarrow> mat4" where
  \<comment> \<open>\<open>translation * rotation\<close> of one keyframe, as the single-keyframe branch and the
      end-of-animation branch both compute it\<close>
  "keyframePose lm useQuat kf =
     mat4_mul (translate mat4_identity (position kf))
              (if useQuat then mat4_cast (quaternion kf)
               else eulerRotation lm (eulerAngles kf))"

definition TIME_EPSILON :: real where
  \<comment> \<open>\<open>0.0001f\<close>: the \<open>float\<close> nearest to one ten-thousandth, \<open>13743895 / 2^37\<close>\<close>
  "TIME_EPSILON = 13743895 / 137438953472"

definition cacheHit :: "controller \<Rightarrow> real \<Rightarrow> bool" where
  \<comment> \<open>\<open>std::abs(time - lastTime) < TIME_EPSILON && lastTime >= 0.0f\<close>\<close>
  "cacheHit c t = (\<bar>fsub t (lastTime c)\<bar> < TIME_EPSILON \<and> lastTime c \<ge> 0)"

definition segmentParam :: "SegmentData \<Rightarrow> real \<Rightarrow> real" where
  \<comment> \<open>the interpolation parameter \<open>t\<close>\<close>
  "segmentParam seg tm =
     (if duration seg > 0 then clamp (fdiv (fsub tm (startTime seg)) (duration seg)) 0 1
      else 0)"

definition blendPose :: "libm \<Rightarrow> SegmentData \<Rightarrow> real \<Rightarrow> bool \<Rightarrow> bool \<Rightarrow> mat4" where
  \<comment> \<open>the tail of \<open>getTransformationMatrix\<close> from the interpolation of the position on,
      for the interpolation parameter \<open>t\<close>\<close>
  "blendPose lm seg t useQuat useBSplines =
     (let pos = (if useBSplines then fastBSplinePosition t seg
                 else fastCatmullRomPosition t seg);
          rotation =
            (if useQuat then mat4_cast (slerp lm (q1 seg) (q2 seg) t)
             else eulerRotation lm (if useBSplines then fastBSplineEuler t seg
                                    else fastCatmullRomEuler t seg))
      in mat4_mul (translate mat4_identity pos) rotation)"

definition segmentPose :: "libm \<Rightarrow> SegmentData \<Rightarrow> real \<Rightarrow> bool \<Rightarrow> bool \<Rightarrow> mat4" where
  \<comment> \<open>the tail of \<open>getTransformationMatrix\<close> from the computation of \<open>t\<close> on\<close>
  "segmentPose lm seg tm useQuat useBSplines =
     blendPose lm seg (segmentParam seg tm) useQuat useBSplines"

definition remember :: "controller \<Rightarrow> real \<Rightarrow> mat4 \<Rightarrow> (mat4 \<times> controller) option" where
  \<comment> \<open>\<open>lastTime = time; return cachedTransform = m;\<close>\<close>
  "remember c t m = Some (m, c\<lparr>lastTime := t, cachedTransform := m\<rparr>)"

definition getTransformationMatrix ::
  "libm \<Rightarrow> controller \<Rightarrow> real \<Rightarrow> bool \<Rightarrow> bool \<Rightarrow> (mat4 \<times> controller) option" where
  \<comment> \<open>the returned matrix and the controller with its \<open>mutable\<close> members updated\<close>
  "getTransformationMatrix lm c t useQuat useBSplines =
     (if keyframes c = [] then Some (mat4_identity, c)
      else if cacheHit c t then Some (cachedTransform c, c)
      else if length (keyframes c) = 1 then
        remember c t (keyframePose lm useQuat (keyframes c ! 0))
      else
        (case precomputeSegments c of
           None \<Rightarrow> None
         | Some c1 \<Rightarrow>
            (case findSegment c1 t of
               None \<Rightarrow> None
             | Some currentSegment \<Rightarrow>
                (let c2 = c1\<lparr>lastSegment := currentSegment\<rparr> in
                 if currentSegment \<ge> int (length (segments c2)) then
                   remember c2 t (keyframePose lm useQuat (last (keyframes c2)))
                 else
                   (case seg_at (segments c2) currentSegment of
                      None \<Rightarrow> None
                    | Some seg \<Rightarrow>
                        remember c2 t (segmentPose lm seg t useQuat useBSplines))))))"

definition getTotalTime :: "controller \<Rightarrow> real" where
  "getTotalTime c = (if keyframes c = [] then 0 else time (last (keyframes c)))"

definition getKeyFrameCount :: "controller \<Rightarrow> nat" where
  "getKeyFrameCount c = length (keyframes c)"

section \<open>Parsing a textual keyframe specification\<close>

text \<open>
  \<open>parseKeyFramesFromString\<close> of \<open>Utils.cpp\<close>. Two library functions decide what it
  does with its text. \<open>std::getline(stream, s, delim)\<close> is written out as \<open>getlines\<close>, the
  list of the strings its successive calls deliver. \<open>std::stof\<close> is a parameter of the
  model: \<open>stof s = None\<close> when the conversion throws. The function catches nothing, so
  an exception of \<open>std::stof\<close> leaves it at once: the result \<open>Inl StofThrew\<close>.

  A \<open>glm::vec3\<close> declared without an initialiser holds whatever GLM's configuration
  leaves in it; the parameter \<open>uninit\<close> stands for that content, which shows only in a
  group with fewer than three numbers on one side of the colon.

  The messages written to \<open>std::cerr\<close> and \<open>std::cout\<close> are not part of the model, and a
  null \<open>controller\<close> pointer is \<open>None\<close>.
\<close>

datatype parse_error = StofThrew

function getlines :: "char \<Rightarrow> string \<Rightarrow> string list" where
  \<comment> \<open>each call reads up to the next delimiter, which it drops, or to the end of the
      text; a call that finds nothing left to read fails and ends the loop\<close>
  "getlines d s =
     (if s = [] then []
      else takeWhile (\<lambda>ch. ch \<noteq> d) s # getlines d (drop 1 (dropWhile (\<lambda>ch. ch \<noteq> d) s)))"
  by pat_completeness auto

termination
proof (relation "measure (\<lambda>(d, s). length s)")
  show "wf (measure (\<lambda>(d :: char, s :: string). length s))"
    by simp
next
  fix d :: char and s :: string
  assume "s \<noteq> []"
  moreover have "length (dropWhile (\<lambda>ch. ch \<noteq> d) s) \<le> length s"
    by (simp add: length_dropWhile_le)
  ultimately have "length (drop 1 (dropWhile (\<lambda>ch. ch \<noteq> d) s)) < length s"
    by (cases s) auto
  then show "((d, drop 1 (dropWhile (\<lambda>ch. ch \<noteq> d) s)), (d, s)) \<in> measure (\<lambda>(d, s). length s)"
    by simp
qed

declare getlines.simps [simp del]

definition vset :: "vec3 \<Rightarrow> nat \<Rightarrow> real \<Rightarrow> vec3" where
  \<comment> \<open>\<open>v[i] = x\<close> for \<open>i\<close> below 3\<close>
  "vset v i x =
     (if i = 0 then Vec3 x (vy v) (vz v)
      else if i = 1 then Vec3 (vx v) x (vz v)
      else Vec3 (vx v) (vy v) x)"

fun parseCoords ::
  "(string \<Rightarrow> real option) \<Rightarrow> string list \<Rightarrow> nat \<Rightarrow> vec3 \<Rightarrow> parse_error + vec3" where
  \<comment> \<open>\<open>while (std::getline(stream, coord, ',') && index < 3) v[index++] = std::stof(coord);\<close>
      over the strings that \<open>getline\<close> delivers\<close>
  "parseCoords stof [] index v = Inr v"
| "parseCoords stof (coord # rest) index v =
     (if index < 3 then
        (case stof coord of
           None \<Rightarrow> Inl StofThrew
         | Some x \<Rightarrow> parseCoords stof rest (index + 1) (vset v index x))
      else Inr v)"

definition timeStep :: real where
  "timeStep = 2"

fun parseGroups ::
  "libm \<Rightarrow> (string \<Rightarrow> real option) \<Rightarrow> vec3 \<Rightarrow> string list \<Rightarrow> KeyFrame list \<Rightarrow> real
     \<Rightarrow> parse_error + KeyFrame list" where
  \<comment> \<open>the outer \<open>while\<close> loop over the semicolon-separated groups, with the vector
      \<open>parsedFrames\<close> and the variable \<open>time\<close> as accumulators\<close>
  "parseGroups lm stof uninit [] parsedFrames tm = Inr parsedFrames"
| "parseGroups lm stof uninit (keyframeData # rest) parsedFrames tm =
     (if keyframeData = [] then parseGroups lm stof uninit rest parsedFrames tm
      else if CHR '':'' \<notin> set keyframeData then parseGroups lm stof uninit rest parsedFrames tm
      else
        (let posStr = takeWhile (\<lambda>ch. ch \<noteq> CHR '':'') keyframeData;
             rotStr = drop 1 (dropWhile (\<lambda>ch. ch \<noteq> CHR '':'') keyframeData)
         in case parseCoords stof (getlines CHR '','' posStr) 0 uninit of
              Inl err \<Rightarrow> Inl err
            | Inr pos \<Rightarrow>
               (case parseCoords stof (getlines CHR '','' rotStr) 0 uninit of
                  Inl err \<Rightarrow> Inl err
                | Inr euler \<Rightarrow>
                    parseGroups lm stof uninit rest
                      (parsedFrames @ [KeyFrame_euler lm pos euler tm]) (fadd tm timeStep))))"

definition parseKeyFramesFromString ::
  "libm \<Rightarrow> (string \<Rightarrow> real option) \<Rightarrow> vec3 \<Rightarrow> string \<Rightarrow> controller option
     \<Rightarrow> parse_error + (bool \<times> controller option)" where
  "parseKeyFramesFromString lm stof uninit keyframeStr ctl =
     (case ctl of
        None \<Rightarrow> Inr (False, None)
      | Some c \<Rightarrow>
         if keyframeStr = [] then Inr (False, Some c)
         else
           (case parseGroups lm stof uninit (getlines CHR '';'' keyframeStr) [] 0 of
              Inl err \<Rightarrow> Inl err
            | Inr parsedFrames \<Rightarrow>
               if parsedFrames = [] then Inr (False, Some c)
               else Inr (True, Some (addMultipleKeyFrames parsedFrames (clearKeyFrames c)))))"

text \<open>
  A sample \<open>stof\<close> for concrete runs: it reads an optional sign, decimal digits and an
  optional fraction, rounds the number to a \<open>float\<close> as \<open>std::stof\<close> does on such
  text, and throws when neither a digit nor a fraction stands at the start. It is used
  only on plain decimal numerals and on single letters.
\<close>

definition digit_val :: "char \<Rightarrow> nat option" where
  "digit_val ch =
     (if ch = CHR ''0'' then Some 0 else if ch = CHR ''1'' then Some 1
      else if ch = CHR ''2'' then Some 2 else if ch = CHR ''3'' then Some 3
      else if ch = CHR ''4'' then Some 4 else if ch = CHR ''5'' then Some 5
      else if ch = CHR ''6'' then Some 6 else if ch = CHR ''7'' then Some 7
      else if ch = CHR ''8'' then Some 8 else if ch = CHR ''9'' then Some 9
      else None)"

definition digits_val :: "string \<Rightarrow> nat" where
  "digits_val ds = foldl (\<lambda>acc ch. 10 * acc + (case digit_val ch of None \<Rightarrow> 0 | Some v \<Rightarrow> v)) 0 ds"

definition is_digit :: "char \<Rightarrow> bool" where
  "is_digit ch = (digit_val ch \<noteq> None)"

definition unsigned_decimal :: "string \<Rightarrow> real option" where
  "unsigned_decimal s =
     (let whole = takeWhile is_digit s;
          after = dropWhile is_digit s;
          frac = (case after of [] \<Rightarrow> [] | ch # r \<Rightarrow> if ch = CHR ''.'' then takeWhile is_digit r else [])
      in if whole = [] \<and> frac = [] then None
         else Some (fl (real (digits_val whole) + real (digits_val frac) / 10 ^ length frac)))"

definition stof_decimal :: "string \<Rightarrow> real option" where
  "stof_decimal s =
     (case s of
        [] \<Rightarrow> None
      | ch # r \<Rightarrow>
          if ch = CHR ''-'' then map_option uminus (unsigned_decimal r)
          else if ch = CHR ''+'' then unsigned_decimal r
          else unsigned_decimal s)"

section \<open>Notions used in the statements\<close>

text \<open>
  The members of the controller are private: a state is one that the constructor and the
  public member functions produce.
\<close>

inductive reachable :: "libm \<Rightarrow> controller \<Rightarrow> bool" for lm :: libm where
  initial: "reachable lm initial_controller"
| added: "reachable lm c \<Longrightarrow> reachable lm (addKeyFrame kf c)"
| batch: "reachable lm c \<Longrightarrow> reachable lm (addMultipleKeyFrames kfs c)"
| cleared: "reachable lm c \<Longrightarrow> reachable lm (clearKeyFrames c)"
| queried: "reachable lm c \<Longrightarrow> getTransformationMatrix lm c t useQuat useBSplines = Some (m, c')
     \<Longrightarrow> reachable lm c'"

definition controller_inv :: "controller \<Rightarrow> bool" where
  \<comment> \<open>what every reachable state satisfies: the remembered segment index is a valid one,
      and a segment array marked as built is the one built from the stored keyframes\<close>
  "controller_inv c =
     (0 \<le> lastSegment c
      \<and> (lastSegment c = 0 \<or> lastSegment c < int (length (keyframes c)) - 1)
      \<and> (segmentsCached c \<longrightarrow> buildSegments (keyframes c) = Some (segments c)))"

definition evaluate :: "libm \<Rightarrow> controller \<Rightarrow> real \<Rightarrow> bool \<Rightarrow> bool \<Rightarrow> mat4 option" where
  \<comment> \<open>the matrix that \<open>getTransformationMatrix\<close> returns\<close>
  "evaluate lm c t useQuat useBSplines =
     map_option fst (getTransformationMatrix lm c t useQuat useBSplines)"

definition addEach :: "KeyFrame list \<Rightarrow> controller \<Rightarrow> controller" where
  \<comment> \<open>one call of \<open>addKeyFrame\<close> for each element of the list, in order: the call pattern
      that \<open>addMultipleKeyFrames\<close> is compared with\<close>
  "addEach kfs c = foldl (\<lambda>s kf. addKeyFrame kf s) c kfs"

definition translation_of :: "mat4 \<Rightarrow> vec3" where
  \<comment> \<open>the translation part of a transform: its last column\<close>
  "translation_of m = Vec3 (v4x (col3 m)) (v4y (col3 m)) (v4z (col3 m))"

definition rotation_of :: "mat4 \<Rightarrow> mat4" where
  \<comment> \<open>the rotation part of a transform: the matrix without its translation\<close>
  "rotation_of m = Mat4 (col0 m) (col1 m) (col2 m) (Vec4 0 0 0 1)"

definition times_increasing :: "KeyFrame list \<Rightarrow> bool" where
  \<comment> \<open>the keyframe times are strictly increasing\<close>
  "times_increasing kfs = sorted_wrt (<) (map time kfs)"

definition last_is_latest :: "KeyFrame list \<Rightarrow> bool" where
  \<comment> \<open>every keyframe but the last has a time strictly before the time of the last\<close>
  "last_is_latest kfs = list_all (\<lambda>kf. time kf < time (last kfs)) (butlast kfs)"

definition first_is_earliest :: "KeyFrame list \<Rightarrow> bool" where
  \<comment> \<open>every keyframe but the first has a time strictly after the time of the first\<close>
  "first_is_earliest kfs = list_all (\<lambda>kf. time (hd kfs) < time kf) (tl kfs)"

text \<open>
  The conditions under which \<open>findSegment\<close> runs inside \<open>getTransformationMatrix\<close>,
  after \<open>precomputeSegments\<close>, and the test that its first three branches make.
\<close>

definition ready :: "controller \<Rightarrow> bool" where
  "ready c = (2 \<le> length (keyframes c) \<and> buildSegments (keyframes c) = Some (segments c)
     \<and> 0 \<le> lastSegment c
     \<and> (lastSegment c = 0 \<or> lastSegment c < int (length (keyframes c)) - 1))"

definition hit :: "controller \<Rightarrow> real \<Rightarrow> int \<Rightarrow> bool" where
  "hit c t j = (0 \<le> j \<and> j < int (length (keyframes c)) - 1
     \<and> time (keyframes c ! nat j) \<le> t \<and> t \<le> time (keyframes c ! (nat j + 1)))"

text \<open>
  Values on which the arithmetic of the program is exact: the multiples of a power of
  two of bounded size.
\<close>

definition on_grid :: "nat \<Rightarrow> real \<Rightarrow> bool" where
  \<comment> \<open>\<open>x\<close> is a whole multiple of \<open>2^(-k)\<close>\<close>
  "on_grid k x = (of_int \<lfloor>x * 2 ^ k\<rfloor> = x * 2 ^ k)"


subsection \<open>Sample keyframes, stores and states\<close>

text \<open>
  A mathematical library for the concrete runs: the one that rounds the exact value
  correctly. The runs call it at the arguments 0 and 1 only, where it returns \<open>sin 0 = 0\<close>,
  \<open>cos 0 = 1\<close> and \<open>arccos 1 = 0\<close>.
\<close>

definition libm_cr :: libm where
  "libm_cr = \<lparr>sinf = (\<lambda>x. fl (sin x)), cosf = (\<lambda>x. fl (cos x)), acosf = (\<lambda>x. fl (arccos x))\<rparr>"

text \<open>
  Keyframes without rotation, as the constructor \<open>KeyFrame(pos, euler, t)\<close> builds them
  from zero angles, and the transform with no rotation and a given translation.
\<close>

definition kf_a :: KeyFrame where
  "kf_a = \<lparr>position = Vec3 0 0 0, eulerAngles = Vec3 0 0 0, quaternion = Quat 1 0 0 0, time = 0\<rparr>"

definition kf_b :: KeyFrame where
  "kf_b = \<lparr>position = Vec3 6 0 0, eulerAngles = Vec3 0 0 0, quaternion = Quat 1 0 0 0, time = 1\<rparr>"

definition kf_c :: KeyFrame where
  "kf_c = \<lparr>position = Vec3 6 6 0, eulerAngles = Vec3 0 0 0, quaternion = Quat 1 0 0 0, time = 2\<rparr>"

definition translated :: "real \<Rightarrow> real \<Rightarrow> real \<Rightarrow> mat4" where
  "translated x y z = Mat4 (Vec4 1 0 0 0) (Vec4 0 1 0 0) (Vec4 0 0 1 0) (Vec4 x y z 1)"

text \<open>
  Stores of two and three keyframes, the segment between \<open>kf_a\<close> and \<open>kf_b\<close>, and the
  states that \<open>precomputeSegments\<close> and further queries leave behind: their cached time,
  cached transform and remembered segment.
\<close>

definition two_keys :: controller where
  "two_keys = addMultipleKeyFrames [kf_a, kf_b] initial_controller"

definition three_keys :: controller where
  "three_keys = addKeyFrame kf_c two_keys"

definition seg_ab :: SegmentData where
  "seg_ab =
     \<lparr>p0 = Vec3 0 0 0, p1 = Vec3 0 0 0, p2 = Vec3 6 0 0, p3 = Vec3 6 0 0,
      e0 = Vec3 0 0 0, e1 = Vec3 0 0 0, e2 = Vec3 0 0 0, e3 = Vec3 0 0 0,
      q1 = Quat 1 0 0 0, q2 = Quat 1 0 0 0, startTime = 0, endTime = 1, duration = 1\<rparr>"

definition two_keys_built :: controller where
  "two_keys_built =
     \<lparr>keyframes = [kf_a, kf_b], lastSegment = 0, lastTime = - 1,
      cachedTransform = mat4_identity, segments = [seg_ab], segmentsCached = True\<rparr>"

definition queried_before_start :: controller where
  "queried_before_start =
     two_keys_built\<lparr>lastTime := - 1 / 2, cachedTransform := translated 0 0 0\<rparr>"

definition bspline_queried_at_end :: controller where
  "bspline_queried_at_end = two_keys_built\<lparr>lastTime := 1, cachedTransform := translated 5 0 0\<rparr>"

definition bspline_queried_at_start :: controller where
  "bspline_queried_at_start = two_keys_built\<lparr>lastTime := 0, cachedTransform := translated 1 0 0\<rparr>"

definition one_key_queried :: controller where
  "one_key_queried = (addKeyFrame kf_a initial_controller)
      \<lparr>lastTime := 1, cachedTransform := keyframePose libm_cr True kf_a\<rparr>"

text \<open>
  A store whose second keyframe stands at the time \<open>0.0001f\<close>, and the state after a
  query at time 0.
\<close>

definition rebuilt :: "controller \<Rightarrow> SegmentData list \<Rightarrow> controller" where
  \<comment> \<open>the state that \<open>precomputeSegments\<close> leaves when it has built the array \<open>segs\<close>\<close>
  "rebuilt c segs = c\<lparr>segments := segs, segmentsCached := True\<rparr>"

definition kf_e :: KeyFrame where
  "kf_e = \<lparr>position = Vec3 6 0 0, eulerAngles = Vec3 0 0 0, quaternion = Quat 1 0 0 0,
           time = 13743895 / 137438953472\<rparr>"

definition seg_ae :: SegmentData where
  "seg_ae = seg_ab\<lparr>endTime := 13743895 / 137438953472, duration := 13743895 / 137438953472\<rparr>"

definition brief_keys :: controller where
  "brief_keys = addMultipleKeyFrames [kf_a, kf_e] initial_controller"

definition brief_queried :: controller where
  "brief_queried =
     \<lparr>keyframes = [kf_a, kf_e], lastSegment = 0, lastTime = 0,
      cachedTransform = translated 0 0 0, segments = [seg_ae], segmentsCached = True\<rparr>"

section \<open>Properties\<close>

subsection \<open>Rounding\<close>

lemma round_even_of_int [simp]: "round_even (of_int n) = n"
  by (simp add: round_even_def)

lemma round_even_cases:
  "round_even y = \<lfloor>y\<rfloor> \<or> round_even y = \<lfloor>y\<rfloor> + 1"
  by (simp add: round_even_def Let_def)

lemma round_even_floor: "y - of_int \<lfloor>y\<rfloor> < 1 / 2 \<Longrightarrow> round_even y = \<lfloor>y\<rfloor>"
  by (simp add: round_even_def Let_def)

lemma round_even_ceil: "1 / 2 < y - of_int \<lfloor>y\<rfloor> \<Longrightarrow> round_even y = \<lfloor>y\<rfloor> + 1"
  by (simp add: round_even_def Let_def)

lemma round_even_mono:
  assumes "a \<le> b"
  shows "round_even a \<le> round_even b"
proof (cases "\<lfloor>a\<rfloor> = \<lfloor>b\<rfloor>")
  case True
  then have "a - of_int \<lfloor>a\<rfloor> \<le> b - of_int \<lfloor>b\<rfloor>" using assms by simp
  then show ?thesis
    using True by (auto simp add: round_even_def Let_def)
next
  case False
  then have "\<lfloor>a\<rfloor> < \<lfloor>b\<rfloor>" using floor_mono [OF assms] by linarith
  then show ?thesis
    using round_even_cases [of a] round_even_cases [of b] by linarith
qed

lemma round_even_neg: "round_even (- y) = - round_even y"
proof (cases "y \<in> \<int>")
  case True
  then obtain n :: int where "y = of_int n" by (auto elim: Ints_cases)
  then have "- y = of_int (- n)" by simp
  then show ?thesis using \<open>y = of_int n\<close> by (simp only: round_even_of_int)
next
  case False
  then have ni: "y \<noteq> of_int \<lfloor>y\<rfloor>" by (metis Ints_of_int)
  then have fl: "\<lfloor>- y\<rfloor> = - \<lfloor>y\<rfloor> - 1"
    by (simp add: floor_minus ceiling_altdef)
  have d: "- y - of_int \<lfloor>- y\<rfloor> = 1 - (y - of_int \<lfloor>y\<rfloor>)"
    by (simp add: fl)
  note ni
  moreover have "of_int \<lfloor>y\<rfloor> \<le> y" "y < of_int \<lfloor>y\<rfloor> + 1" by linarith+
  ultimately have "0 < y - of_int \<lfloor>y\<rfloor>" "y - of_int \<lfloor>y\<rfloor> < 1" by linarith+
  then show ?thesis
    unfolding round_even_def Let_def d unfolding fl by auto
qed

lemma round_even_error: "\<bar>of_int (round_even y) - y\<bar> \<le> 1 / 2"
proof -
  have "of_int \<lfloor>y\<rfloor> \<le> y" "y < of_int \<lfloor>y\<rfloor> + 1" by linarith+
  then show ?thesis
    by (auto simp add: round_even_def Let_def abs_le_iff)
qed

lemma expo_up_bounds:
  "1 \<le> x \<Longrightarrow> e \<le> expo_up x e \<and> 2 powi (expo_up x e - e) \<le> x \<and> x < 2 powi (expo_up x e - e + 1)"
proof (induction x e rule: expo_up.induct)
  case (1 x e)
  show ?case
  proof (cases "2 \<le> x")
    case True
    let ?r = "expo_up (x / 2) (e + 1)"
    have eq: "expo_up x e = ?r" using True by (subst expo_up.simps) simp
    have ih: "e + 1 \<le> ?r \<and> 2 powi (?r - (e + 1)) \<le> x / 2 \<and> x / 2 < 2 powi (?r - (e + 1) + 1)"
      using 1 True by simp
    have p1: "(2::real) powi (?r - e) = 2 * 2 powi (?r - (e + 1))"
      by (simp add: power_int_diff power_int_add)
    have p2: "(2::real) powi (?r - e + 1) = 2 * 2 powi (?r - (e + 1) + 1)"
      by (simp add: power_int_diff power_int_add)
    show ?thesis
      unfolding eq p1 p2 using ih by auto
  next
    case False
    then have "expo_up x e = e" by (subst expo_up.simps) simp
    then show ?thesis using False 1(2) by simp
  qed
qed

lemma expo_down_bounds:
  "0 \<le> x \<Longrightarrow> x < 1 \<Longrightarrow> - 126 \<le> e \<Longrightarrow>
     - 126 \<le> expo_down x e \<and> expo_down x e \<le> e
     \<and> (expo_down x e = - 126 \<or> 2 powi (expo_down x e - e) \<le> x)
     \<and> x < 2 powi (expo_down x e - e + 1)"
proof (induction x e rule: expo_down.induct)
  case (1 x e)
  show ?case
  proof (cases "- 126 < e")
    case True
    let ?r = "expo_down (2 * x) (e - 1)"
    have eq: "expo_down x e = ?r" using True 1(3) by (subst expo_down.simps) simp
    show ?thesis
    proof (cases "2 * x < 1")
      case small: True
      have ih: "- 126 \<le> ?r \<and> ?r \<le> e - 1 \<and> (?r = - 126 \<or> 2 powi (?r - (e - 1)) \<le> 2 * x)
          \<and> 2 * x < 2 powi (?r - (e - 1) + 1)"
        using 1 True small by simp
      have p1: "(2::real) powi (?r - (e - 1)) = 2 * 2 powi (?r - e)"
        by (simp add: power_int_diff power_int_add)
      have p2: "(2::real) powi (?r - (e - 1) + 1) = 2 * 2 powi (?r - e + 1)"
        by (simp add: power_int_diff power_int_add)
      show ?thesis
        unfolding eq using ih unfolding p1 p2 by auto
    next
      case False
      then have "?r = e - 1" by (subst expo_down.simps) simp
      then show ?thesis unfolding eq using False 1(3) True by (simp add: power_int_minus)
    qed
  next
    case False
    then have e: "e = - 126" using 1(4) by simp
    then have "expo_down x e = - 126" by (subst expo_down.simps) simp
    then show ?thesis using e 1(3) by simp
  qed
qed

lemma expo_ge: "- 126 \<le> expo x"
proof (cases "1 \<le> \<bar>x\<bar>")
  case True
  then show ?thesis using expo_up_bounds [of "\<bar>x\<bar>" 0] by (simp add: expo_def)
next
  case False
  then show ?thesis using expo_down_bounds [of "\<bar>x\<bar>" 0] by (simp add: expo_def)
qed

lemma expo_upper: "\<bar>x\<bar> < 2 powi (expo x + 1)"
proof (cases "1 \<le> \<bar>x\<bar>")
  case True
  then show ?thesis using expo_up_bounds [of "\<bar>x\<bar>" 0] by (simp add: expo_def)
next
  case False
  then show ?thesis using expo_down_bounds [of "\<bar>x\<bar>" 0] by (simp add: expo_def)
qed

lemma expo_lower: "expo x = - 126 \<or> 2 powi (expo x) \<le> \<bar>x\<bar>"
proof (cases "1 \<le> \<bar>x\<bar>")
  case True
  then show ?thesis using expo_up_bounds [of "\<bar>x\<bar>" 0] by (simp add: expo_def)
next
  case False
  then show ?thesis using expo_down_bounds [of "\<bar>x\<bar>" 0] by (simp add: expo_def)
qed

lemma expo_unique:
  assumes "- 126 \<le> k" and "2 powi k \<le> \<bar>x\<bar>" and "\<bar>x\<bar> < 2 powi (k + 1)"
  shows "expo x = k"
proof -
  have "2 powi k < (2::real) powi (expo x + 1)"
    using assms(2) expo_upper [of x] by linarith
  then have "k < expo x + 1"
    by (smt (verit) power_int_increasing)
  moreover have "expo x \<le> k"
  proof (cases "expo x = - 126")
    case True
    then show ?thesis using assms(1) by simp
  next
    case False
    then have "2 powi (expo x) \<le> \<bar>x\<bar>" using expo_lower [of x] by simp
    then have "2 powi (expo x) < (2::real) powi (k + 1)" using assms(3) by linarith
    then have "expo x < k + 1" by (smt (verit) power_int_increasing)
    then show ?thesis by simp
  qed
  ultimately show ?thesis by simp
qed

lemma expo_subnormal:
  assumes "\<bar>x\<bar> < 2 powi (- 126)"
  shows "expo x = - 126"
proof (rule ccontr)
  assume "expo x \<noteq> - 126"
  then have "2 powi (expo x) \<le> \<bar>x\<bar>" "- 126 \<le> expo x"
    using expo_lower [of x] expo_ge [of x] by simp_all
  moreover have "(2::real) powi (- 126) \<le> 2 powi (expo x)"
    using \<open>- 126 \<le> expo x\<close> by (intro power_int_increasing) simp_all
  ultimately show False using assms by linarith
qed

lemma expo_minus [simp]: "expo (- x) = expo x"
  by (simp add: expo_def)

lemma ulp_minus [simp]: "ulp (- x) = ulp x"
  by (simp add: ulp_def)

lemma ulp_pos [simp]: "0 < ulp x"
  by (simp add: ulp_def)

lemma ulp_nonzero [simp]: "ulp x \<noteq> 0"
  by (simp add: ulp_def)

lemma ulp_nonneg [simp]: "0 \<le> ulp x"
  by (simp add: ulp_def)

lemma abs_ulp [simp]: "\<bar>ulp x\<bar> = ulp x"
  by (simp add: ulp_def)

lemma fl_minus: "fl (- x) = - fl x"
  by (simp add: fl_def round_even_neg)

lemma fl_0 [simp]: "fl 0 = 0"
  by (simp add: fl_def round_even_def)

lemma quotient_bound: "\<bar>x / ulp x\<bar> < 2 ^ 24"
proof -
  have "\<bar>x\<bar> < 2 powi (expo x + 1)" by (rule expo_upper)
  also have "(2::real) powi (expo x + 1) = 2 ^ 24 * ulp x"
    by (simp add: ulp_def power_int_diff power_int_add)
  finally have "\<bar>x\<bar> / ulp x < 2 ^ 24"
    by (simp add: pos_divide_less_eq)
  then show ?thesis by simp
qed

lemma mantissa_bound: "\<bar>round_even (x / ulp x)\<bar> \<le> 2 ^ 24"
proof -
  have "- (2 ^ 24) \<le> x / ulp x" "x / ulp x \<le> 2 ^ 24"
    using quotient_bound [of x] by linarith+
  then have "round_even (of_int (- (2 ^ 24))) \<le> round_even (x / ulp x)"
    "round_even (x / ulp x) \<le> round_even (of_int (2 ^ 24))"
    by (simp_all add: round_even_mono)
  then have "- (2 ^ 24) \<le> round_even (x / ulp x)" "round_even (x / ulp x) \<le> 2 ^ 24"
    by (simp_all only: round_even_of_int)
  then show ?thesis by linarith
qed

lemma fl_of_quotient:
  assumes "x / ulp x = of_int n"
  shows "fl x = x"
proof -
  have "fl x = of_int n * ulp x" by (simp add: fl_def assms)
  also have "\<dots> = x / ulp x * ulp x" by (simp add: assms)
  also have "\<dots> = x" by simp
  finally show ?thesis .
qed

lemma fl_fix:
  assumes "- 149 \<le> j" and "\<bar>m\<bar> \<le> 2 ^ 24"
  shows "fl (of_int m * 2 powi j) = of_int m * 2 powi j"
proof (cases "m = 0")
  case True
  then show ?thesis by simp
next
  case False
  let ?y = "of_int m * (2::real) powi j"
  let ?e = "expo ?y"
  have absy: "\<bar>?y\<bar> = of_int \<bar>m\<bar> * 2 powi j" by (simp add: abs_mult)
  have quot: "?y / ulp ?y = of_int m * 2 powi (j - ?e + 23)"
    by (simp add: ulp_def power_int_diff power_int_add)
  show ?thesis
  proof (cases "?e - 23 \<le> j")
    case True
    then have "(2::real) powi (j - ?e + 23) = of_int (2 ^ nat (j - ?e + 23))"
      by (simp add: power_int_def)
    then have "?y / ulp ?y = of_int (m * 2 ^ nat (j - ?e + 23))"
      unfolding quot by simp
    then show ?thesis by (rule fl_of_quotient)
  next
    case False
    then have big: "j + 24 \<le> ?e" by simp
    then have "?e \<noteq> - 126" using assms(1) by simp
    then have low: "2 powi ?e \<le> \<bar>?y\<bar>" using expo_lower [of ?y] by simp
    have "(of_int \<bar>m\<bar> :: real) \<le> of_int (2 ^ 24)"
      using assms(2) by (simp only: of_int_le_iff)
    then have "(of_int \<bar>m\<bar> :: real) \<le> 2 ^ 24" by simp
    then have "\<bar>?y\<bar> \<le> 2 ^ 24 * 2 powi j"
      unfolding absy by (intro mult_right_mono) simp_all
    also have "\<dots> = (2::real) powi (j + 24)" by (simp add: power_int_add)
    finally have up: "\<bar>?y\<bar> \<le> 2 powi (j + 24)" .
    have "(2::real) powi (j + 24) \<le> 2 powi ?e"
      using big by (intro power_int_increasing) simp_all
    with low up have yeq: "\<bar>?y\<bar> = 2 powi (j + 24)" and peq: "(2::real) powi ?e = 2 powi (j + 24)"
      by linarith+
    have e: "?e = j + 24"
    proof (rule ccontr)
      assume "?e \<noteq> j + 24"
      then have "j + 24 < ?e" using big by simp
      then have "(2::real) powi (j + 24) < 2 powi ?e"
        by (intro power_int_strict_increasing) simp_all
      then show False using peq by simp
    qed
    have "of_int \<bar>m\<bar> * (2::real) powi j = 2 ^ 24 * 2 powi j"
      using yeq unfolding absy by (simp add: power_int_add)
    then have "(of_int \<bar>m\<bar> :: real) = 2 ^ 24" by simp
    then have "(of_int \<bar>m\<bar> :: real) = of_int (2 ^ 24)" by simp
    then have m: "\<bar>m\<bar> = 2 ^ 24" by (simp only: of_int_eq_iff)
    have "?y / ulp ?y = of_int m / 2"
      unfolding quot e by (simp add: power_int_minus)
    moreover have "\<bar>m\<bar> = 16777216" using m by simp
    then have "m = 2 * (m div 2)" by presburger
    ultimately have "?y / ulp ?y = of_int (m div 2)"
      by (metis (no_types, opaque_lifting) nonzero_mult_div_cancel_left of_int_mult of_int_numeral zero_neq_numeral)
    then show ?thesis by (rule fl_of_quotient)
  qed
qed

lemma fl_idem [simp]: "fl (fl x) = fl x"
proof -
  have "fl x = of_int (round_even (x / ulp x)) * 2 powi (expo x - 23)"
    by (simp add: fl_def ulp_def)
  moreover have "- 149 \<le> expo x - 23" using expo_ge [of x] by simp
  ultimately show ?thesis
    using fl_fix [OF _ mantissa_bound, of "expo x - 23" x] by simp
qed

lemma f32_fl [simp]: "f32 (fl x)"
  by (simp add: f32_def)

lemma fl_grid:
  fixes k :: nat
  assumes "x * 2 ^ k = of_int m" and "\<bar>m\<bar> \<le> 2 ^ 24" and "k \<le> 149"
  shows "fl x = x"
proof -
  have "x = of_int m * 2 powi (- int k)"
    using assms(1) by (simp add: power_int_minus field_simps)
  moreover have "- 149 \<le> - int k" using assms(3) by simp
  ultimately show ?thesis using fl_fix [OF _ assms(2), of "- int k"] by simp
qed

lemma fl_of_int: "\<bar>n\<bar> \<le> 2 ^ 24 \<Longrightarrow> fl (of_int n) = of_int n"
  using fl_grid [of "of_int n" 0 n] by simp

lemma f32_grid:
  assumes "f32 x"
  shows "\<exists>m::int. x = of_int m * 2 powi (- 149)"
proof -
  let ?j = "expo x - 23"
  have j: "0 \<le> ?j + 149" using expo_ge [of x] by simp
  have "x = of_int (round_even (x / ulp x)) * 2 powi ?j"
    using assms by (simp add: f32_def fl_def ulp_def)
  also have "(2::real) powi ?j = 2 powi (?j + 149) * 2 powi (- 149)"
    using power_int_add [of "2::real" "?j + 149" "- 149"] by simp
  also have "(2::real) powi (?j + 149) = of_int (2 ^ nat (?j + 149))"
    using j by (simp add: power_int_def)
  finally have "x = of_int (round_even (x / ulp x) * 2 ^ nat (?j + 149)) * 2 powi (- 149)"
    by simp
  then show ?thesis by blast
qed

lemma fl_nonneg: "0 \<le> x \<Longrightarrow> 0 \<le> fl x"
proof -
  assume "0 \<le> x"
  then have "0 \<le> x / ulp x" by simp
  then have "round_even (of_int 0) \<le> round_even (x / ulp x)"
    by (intro round_even_mono) simp
  then have "0 \<le> round_even (x / ulp x)" by (simp only: round_even_of_int)
  then show ?thesis by (simp add: fl_def)
qed

lemma expo_mono:
  assumes "\<bar>x\<bar> \<le> \<bar>y\<bar>"
  shows "expo x \<le> expo y"
proof (cases "expo x = - 126")
  case True
  then show ?thesis using expo_ge [of y] by simp
next
  case False
  then have "2 powi (expo x) \<le> \<bar>x\<bar>" using expo_lower [of x] by simp
  then have "2 powi (expo x) < (2::real) powi (expo y + 1)"
    using assms expo_upper [of y] by linarith
  then have "expo x < expo y + 1" by (smt (verit) power_int_increasing)
  then show ?thesis by simp
qed

lemma fl_mono_nonneg:
  assumes "0 \<le> x" and "x \<le> y"
  shows "fl x \<le> fl y"
proof (cases "expo x = expo y")
  case True
  then have u: "ulp x = ulp y" by (simp add: ulp_def)
  have "x / ulp y \<le> y / ulp y" using assms(2) by (simp add: divide_right_mono)
  then have "round_even (x / ulp y) \<le> round_even (y / ulp y)" by (rule round_even_mono)
  then show ?thesis by (simp add: fl_def u)
next
  case False
  then have lt: "expo x < expo y" using expo_mono [of x y] assms by simp
  have "round_even (x / ulp x) \<le> 2 ^ 24" using mantissa_bound [of x] by simp
  then have "(of_int (round_even (x / ulp x)) :: real) \<le> of_int (2 ^ 24)"
    by (simp only: of_int_le_iff)
  then have "fl x \<le> 2 ^ 24 * ulp x" unfolding fl_def by (intro mult_right_mono) simp_all
  also have "\<dots> = 2 powi (expo x + 1)" by (simp add: ulp_def power_int_diff power_int_add)
  also have "\<dots> \<le> 2 powi (expo y)" using lt by (intro power_int_increasing) simp_all
  finally have a: "fl x \<le> 2 powi (expo y)" .
  have "expo y \<noteq> - 126" using lt expo_ge [of x] by simp
  then have "2 powi (expo y) \<le> \<bar>y\<bar>" using expo_lower [of y] by simp
  then have "2 powi (expo y) \<le> y" using assms by simp
  then have "2 powi (expo y) / ulp y \<le> y / ulp y" by (simp add: divide_right_mono)
  moreover have "(2::real) powi (expo y) / ulp y = of_int (2 ^ 23)"
    by (simp add: ulp_def power_int_diff)
  ultimately have "round_even (of_int (2 ^ 23)) \<le> round_even (y / ulp y)"
    by (intro round_even_mono) simp
  then have "2 ^ 23 \<le> round_even (y / ulp y)" by (simp only: round_even_of_int)
  then have "(of_int (2 ^ 23) :: real) \<le> of_int (round_even (y / ulp y))"
    by (simp only: of_int_le_iff)
  then have "2 ^ 23 * ulp y \<le> fl y" unfolding fl_def by (intro mult_right_mono) simp_all
  moreover have "2 ^ 23 * ulp y = 2 powi (expo y)" by (simp add: ulp_def power_int_diff)
  ultimately show ?thesis using a by linarith
qed

lemma fl_mono:
  assumes "x \<le> y"
  shows "fl x \<le> fl y"
proof -
  consider "0 \<le> x" | "y \<le> 0" | "x < 0" "0 < y" by linarith
  then show ?thesis
  proof cases
    case 1
    then show ?thesis using assms by (rule fl_mono_nonneg)
  next
    case 2
    then have "fl (- y) \<le> fl (- x)" using assms by (intro fl_mono_nonneg) simp_all
    then show ?thesis by (simp add: fl_minus)
  next
    case 3
    then have "0 \<le> fl (- x)" "0 \<le> fl y" by (simp_all add: fl_nonneg)
    then show ?thesis by (simp add: fl_minus)
  qed
qed

lemma fl_1 [simp]: "fl 1 = 1"
  using fl_of_int [of 1] by simp

lemma fl_tiny: "fl (2 powi (- 149)) = 2 powi (- 149)"
  using fl_fix [of "- 149" 1] by simp

lemma fl_diff_pos:
  assumes "f32 a" and "f32 b" and "a < b"
  shows "0 < fl (b - a)"
proof -
  obtain m n :: int where a: "a = of_int m * 2 powi (- 149)" and b: "b = of_int n * 2 powi (- 149)"
    using f32_grid assms(1,2) by blast
  have "m < n"
  proof (rule ccontr)
    assume "\<not> m < n"
    then have "(of_int n :: real) \<le> of_int m" by simp
    then have "b \<le> a" unfolding a b by (intro mult_right_mono) simp_all
    then show False using assms(3) by simp
  qed
  then have "1 \<le> n - m" by simp
  then have "(of_int 1 :: real) \<le> of_int (n - m)" by (simp only: of_int_le_iff)
  then have "(1::real) \<le> of_int (n - m)" by simp
  then have "1 * 2 powi (- 149) \<le> (of_int (n - m) :: real) * 2 powi (- 149)"
    by (intro mult_right_mono) simp_all
  also have "\<dots> = b - a" by (simp only: a b of_int_diff left_diff_distrib)
  finally have "2 powi (- 149) \<le> b - a" by simp
  then have "fl (2 powi (- 149)) \<le> fl (b - a)" by (rule fl_mono)
  then have "2 powi (- 149) \<le> fl (b - a)" by (simp only: fl_tiny)
  moreover have "0 < (2::real) powi (- 149)" by simp
  ultimately show ?thesis by linarith
qed

lemma fl_exact:
  fixes k :: nat
  assumes "x * 2 ^ k \<in> \<int>" and "\<bar>x\<bar> * 2 ^ k \<le> 2 ^ 24" and "k \<le> 149"
  shows "fl x = x"
proof -
  obtain m :: int where m: "x * 2 ^ k = of_int m" using assms(1) by (auto elim: Ints_cases)
  have "\<bar>x * 2 ^ k\<bar> \<le> 2 ^ 24" using assms(2) by (simp add: abs_mult)
  then have "\<bar>(of_int m :: real)\<bar> \<le> of_int (2 ^ 24)" by (simp add: m)
  then have "(of_int \<bar>m\<bar> :: real) \<le> of_int (2 ^ 24)" by simp
  then have "\<bar>m\<bar> \<le> 2 ^ 24" by (simp only: of_int_le_iff)
  then show ?thesis using fl_grid [OF m _ assms(3)] by simp
qed

lemma fl_int_exact: "x \<in> \<int> \<Longrightarrow> \<bar>x\<bar> \<le> 16777216 \<Longrightarrow> fl x = x"
  using fl_exact [of x 0] by simp

subsection \<open>The segment array and the search in it\<close>

lemma those_map_Some:
  "those (map f xs) = Some ys \<Longrightarrow>
     length ys = length xs \<and> (\<forall>i < length xs. f (xs ! i) = Some (ys ! i))"
proof (induction xs arbitrary: ys)
  case Nil
  then show ?case by simp
next
  case (Cons x xs)
  from Cons.prems obtain y zs where y: "f x = Some y" and zs: "those (map f xs) = Some zs"
    and ys: "ys = y # zs"
    by (auto split: option.splits)
  have ih: "length zs = length xs \<and> (\<forall>i < length xs. f (xs ! i) = Some (zs ! i))"
    using Cons.IH [OF zs] .
  show ?case
  proof (intro conjI allI impI)
    show "length ys = length (x # xs)" using ih ys by simp
  next
    fix i assume "i < length (x # xs)"
    then show "f ((x # xs) ! i) = Some (ys ! i)"
      using ih y ys by (cases i) simp_all
  qed
qed

lemma buildSegments_Some:
  assumes "buildSegments kfs = Some segs"
  shows "length segs = length kfs - 1"
    and "j + 1 < length kfs \<Longrightarrow> makeSegment kfs j = Some (segs ! j)"
proof -
  have *: "length segs = length [0 ..< length kfs - 1]
      \<and> (\<forall>i < length [0 ..< length kfs - 1].
            makeSegment kfs ([0 ..< length kfs - 1] ! i) = Some (segs ! i))"
    using those_map_Some [of "makeSegment kfs" "[0 ..< length kfs - 1]" segs] assms
    by (simp add: buildSegments_def)
  then show "length segs = length kfs - 1" by simp
  show "makeSegment kfs j = Some (segs ! j)" if "j + 1 < length kfs"
  proof -
    have "j < length [0 ..< length kfs - 1]" using that by simp
    moreover have "[0 ..< length kfs - 1] ! j = j" using that by simp
    ultimately show ?thesis using * by metis
  qed
qed

lemma makeSegment_fields:
  assumes "makeSegment kfs j = Some seg"
  shows "startTime seg = time (kfs ! j)"
    and "endTime seg = time (kfs ! (j + 1))"
    and "duration seg = fsub (time (kfs ! (j + 1))) (time (kfs ! j))"
    and "p0 seg = position (kfs ! (j - 1))"
    and "p1 seg = position (kfs ! j)"
    and "p2 seg = position (kfs ! (j + 1))"
    and "p3 seg = position (kfs ! min (j + 2) (length kfs - 1))"
    and "q1 seg = quaternion (kfs ! j)"
    and "q2 seg = quaternion (kfs ! (j + 1))"
    and "e1 seg = eulerAngles (kfs ! j)"
    and "normalizeAngles (eulerAngles (kfs ! (j - 1))) (eulerAngles (kfs ! j)) = Some (e0 seg)"
    and "normalizeAngles (eulerAngles (kfs ! (j + 1))) (eulerAngles (kfs ! j)) = Some (e2 seg)"
    and "normalizeAngles (eulerAngles (kfs ! min (j + 2) (length kfs - 1))) (e2 seg)
           = Some (e3 seg)"
proof -
  have idx: "nat (max 0 (int j - 1)) = j - 1" by (cases j) auto
  from assms obtain a b c where
    a: "normalizeAngles (eulerAngles (kfs ! (j - 1))) (eulerAngles (kfs ! j)) = Some a"
    and b: "normalizeAngles (eulerAngles (kfs ! (j + 1))) (eulerAngles (kfs ! j)) = Some b"
    and c: "normalizeAngles (eulerAngles (kfs ! min (j + 2) (length kfs - 1))) b = Some c"
    and seg: "seg = \<lparr>p0 = position (kfs ! (j - 1)), p1 = position (kfs ! j),
        p2 = position (kfs ! (j + 1)), p3 = position (kfs ! min (j + 2) (length kfs - 1)),
        e0 = a, e1 = eulerAngles (kfs ! j), e2 = b, e3 = c,
        q1 = quaternion (kfs ! j), q2 = quaternion (kfs ! (j + 1)),
        startTime = time (kfs ! j), endTime = time (kfs ! (j + 1)),
        duration = fsub (time (kfs ! (j + 1))) (time (kfs ! j))\<rparr>"
    by (auto simp add: makeSegment_def Let_def idx split: option.splits)
  show "startTime seg = time (kfs ! j)"
    and "endTime seg = time (kfs ! (j + 1))"
    and "duration seg = fsub (time (kfs ! (j + 1))) (time (kfs ! j))"
    and "p0 seg = position (kfs ! (j - 1))"
    and "p1 seg = position (kfs ! j)"
    and "p2 seg = position (kfs ! (j + 1))"
    and "p3 seg = position (kfs ! min (j + 2) (length kfs - 1))"
    and "q1 seg = quaternion (kfs ! j)"
    and "q2 seg = quaternion (kfs ! (j + 1))"
    and "e1 seg = eulerAngles (kfs ! j)"
    and "normalizeAngles (eulerAngles (kfs ! (j - 1))) (eulerAngles (kfs ! j)) = Some (e0 seg)"
    and "normalizeAngles (eulerAngles (kfs ! (j + 1))) (eulerAngles (kfs ! j)) = Some (e2 seg)"
    and "normalizeAngles (eulerAngles (kfs ! min (j + 2) (length kfs - 1))) (e2 seg)
           = Some (e3 seg)"
    using a b c by (simp_all add: seg)
qed

lemma bsearch_in_range:
  "0 \<le> left \<Longrightarrow> right < int (length segs) \<Longrightarrow> segs \<noteq> [] \<Longrightarrow>
     \<exists>i. bsearch segs t left right = Some i \<and> 0 \<le> i \<and> i < int (length segs)"
proof (induction segs t left right rule: bsearch.induct)
  case (1 segs t left right)
  show ?case
  proof (cases "left \<le> right")
    case False
    with 1(4,5) show ?thesis by (subst bsearch.simps) auto
  next
    case True
    define mid where "mid = (left + right) sdiv 2"
    have mid: "left \<le> mid \<and> mid \<le> right"
      using True sdiv_two_between by (simp add: mid_def)
    then have at: "seg_at segs mid = Some (segs ! nat mid)"
      using 1(3,4) by (simp add: seg_at_def)
    consider (lo) "t < startTime (segs ! nat mid)"
      | (hi) "\<not> t < startTime (segs ! nat mid)" "t > endTime (segs ! nat mid)"
      | (found) "\<not> t < startTime (segs ! nat mid)" "\<not> t > endTime (segs ! nat mid)"
      by blast
    then show ?thesis
    proof cases
      case lo
      have "\<exists>i. bsearch segs t left (mid - 1) = Some i \<and> 0 \<le> i \<and> i < int (length segs)"
        using 1(1) [OF True mid_def at lo] 1(3,4,5) mid by simp
      then show ?thesis
        using True at lo by (subst bsearch.simps) (simp add: mid_def [symmetric])
    next
      case hi
      have "\<exists>i. bsearch segs t (mid + 1) right = Some i \<and> 0 \<le> i \<and> i < int (length segs)"
        using 1(2) [OF True mid_def at hi] 1(3,4,5) mid by simp
      then show ?thesis
        using True at hi by (subst bsearch.simps) (simp add: mid_def [symmetric])
    next
      case found
      then show ?thesis
        using True at mid 1(3,4) by (subst bsearch.simps) (simp add: mid_def [symmetric])
    qed
  qed
qed

lemma bsearch_upto_last:
  "0 \<le> left \<Longrightarrow> right = int (length segs) - 1 \<Longrightarrow> segs \<noteq> [] \<Longrightarrow>
   (\<And>j. left \<le> j \<Longrightarrow> j \<le> right \<Longrightarrow>
        \<not> t < startTime (segs ! nat j) \<and> (j < right \<longrightarrow> t > endTime (segs ! nat j))) \<Longrightarrow>
     bsearch segs t left right = Some right"
proof (induction segs t left right rule: bsearch.induct)
  case (1 segs t left right)
  show ?case
  proof (cases "left \<le> right")
    case False
    with 1(4,5) show ?thesis by (subst bsearch.simps) auto
  next
    case True
    define mid where "mid = (left + right) sdiv 2"
    have mid: "left \<le> mid \<and> mid \<le> right"
      using True sdiv_two_between by (simp add: mid_def)
    then have at: "seg_at segs mid = Some (segs ! nat mid)"
      using 1(3,4) by (simp add: seg_at_def)
    have lo: "\<not> t < startTime (segs ! nat mid)"
      using 1(6) [of mid] mid by simp
    show ?thesis
    proof (cases "t > endTime (segs ! nat mid)")
      case hi: True
      have "bsearch segs t (mid + 1) right = Some right"
      proof (rule 1(2) [OF True mid_def at lo hi _ 1(4) 1(5)])
        show "0 \<le> mid + 1" using mid 1(3) by simp
      next
        fix j :: int assume "mid + 1 \<le> j" "j \<le> right"
        then show "\<not> t < startTime (segs ! nat j) \<and> (j < right \<longrightarrow> t > endTime (segs ! nat j))"
          using 1(6) [of j] mid by simp
      qed
      then show ?thesis
        using True at lo hi by (subst bsearch.simps) (simp add: mid_def [symmetric])
    next
      case False
      then have "mid = right" using 1(6) [of mid] mid by auto
      then show ?thesis
        using True at lo False by (subst bsearch.simps) (simp add: mid_def [symmetric])
    qed
  qed
qed

lemma bsearch_down_to_first:
  "left = 0 \<Longrightarrow> right < int (length segs) \<Longrightarrow> segs \<noteq> [] \<Longrightarrow>
   (\<And>j. 0 \<le> j \<Longrightarrow> j \<le> right \<Longrightarrow>
        \<not> t > endTime (segs ! nat j) \<and> (0 < j \<longrightarrow> t < startTime (segs ! nat j))) \<Longrightarrow>
     bsearch segs t left right = Some 0"
proof (induction segs t left right rule: bsearch.induct)
  case (1 segs t left right)
  show ?case
  proof (cases "left \<le> right")
    case False
    with 1(3,5) show ?thesis by (subst bsearch.simps) auto
  next
    case True
    define mid where "mid = (left + right) sdiv 2"
    have mid: "left \<le> mid \<and> mid \<le> right"
      using True sdiv_two_between by (simp add: mid_def)
    then have at: "seg_at segs mid = Some (segs ! nat mid)"
      using 1(3,4) by (simp add: seg_at_def)
    have nhi: "\<not> t > endTime (segs ! nat mid)"
      using 1(6) [of mid] mid 1(3) by simp
    show ?thesis
    proof (cases "t < startTime (segs ! nat mid)")
      case lo: True
      have "bsearch segs t left (mid - 1) = Some 0"
      proof (rule 1(1) [OF True mid_def at lo 1(3) _ 1(5)])
        show "mid - 1 < int (length segs)" using mid 1(4) by simp
      next
        fix j :: int assume "0 \<le> j" "j \<le> mid - 1"
        then show "\<not> t > endTime (segs ! nat j) \<and> (0 < j \<longrightarrow> t < startTime (segs ! nat j))"
          using 1(6) [of j] mid by simp
      qed
      then show ?thesis
        using True at lo by (subst bsearch.simps) (simp add: mid_def [symmetric])
    next
      case False
      then have "mid = 0" using 1(6) [of mid] mid 1(3) by auto
      then show ?thesis
        using True at nhi False by (subst bsearch.simps) (simp add: mid_def [symmetric])
    qed
  qed
qed

lemma bsearch_covering:
  "\<forall>i j. i \<le> j \<longrightarrow> j < length segs \<longrightarrow> startTime (segs ! i) \<le> startTime (segs ! j) \<Longrightarrow>
   \<forall>i j. i \<le> j \<longrightarrow> j < length segs \<longrightarrow> endTime (segs ! i) \<le> endTime (segs ! j) \<Longrightarrow>
   0 \<le> left \<Longrightarrow> right < int (length segs) \<Longrightarrow>
     left \<le> j0 \<Longrightarrow> j0 \<le> right \<Longrightarrow>
     startTime (segs ! nat j0) \<le> t \<Longrightarrow> t \<le> endTime (segs ! nat j0) \<Longrightarrow>
     \<exists>m. bsearch segs t left right = Some m \<and> 0 \<le> m \<and> m < int (length segs)
        \<and> startTime (segs ! nat m) \<le> t \<and> t \<le> endTime (segs ! nat m)"
proof (induction segs t left right rule: bsearch.induct)
  case (1 segs t left right)
  have True: "left \<le> right" using 1(7,8) by simp
  define mid where "mid = (left + right) sdiv 2"
  have mid: "left \<le> mid \<and> mid \<le> right"
    using True sdiv_two_between by (simp add: mid_def)
  then have at: "seg_at segs mid = Some (segs ! nat mid)"
    using 1(5,6) by (simp add: seg_at_def)
  consider (lo) "t < startTime (segs ! nat mid)"
    | (hi) "\<not> t < startTime (segs ! nat mid)" "t > endTime (segs ! nat mid)"
    | (found) "\<not> t < startTime (segs ! nat mid)" "\<not> t > endTime (segs ! nat mid)"
    by blast
  then show ?case
  proof cases
    case lo
    have "j0 < mid"
    proof (rule ccontr)
      assume "\<not> j0 < mid"
      then have "nat mid \<le> nat j0" "nat j0 < length segs" using 1(5,6,8) mid by simp_all
      then have "startTime (segs ! nat mid) \<le> startTime (segs ! nat j0)"
        using 1(3) by blast
      with lo 1(9) show False by simp
    qed
    then have "\<exists>m. bsearch segs t left (mid - 1) = Some m \<and> 0 \<le> m \<and> m < int (length segs)
        \<and> startTime (segs ! nat m) \<le> t \<and> t \<le> endTime (segs ! nat m)"
      using 1(1) [OF True mid_def at lo 1(3) 1(4) 1(5)] 1(6,7,9,10) mid by simp
    then show ?thesis
      using True at lo by (subst bsearch.simps) (simp add: mid_def [symmetric])
  next
    case hi
    have "mid < j0"
    proof (rule ccontr)
      assume "\<not> mid < j0"
      then have "nat j0 \<le> nat mid" "nat mid < length segs" using 1(5,6,7) mid by simp_all
      then have "endTime (segs ! nat j0) \<le> endTime (segs ! nat mid)"
        using 1(4) by blast
      with hi 1(10) show False by simp
    qed
    then have "\<exists>m. bsearch segs t (mid + 1) right = Some m \<and> 0 \<le> m \<and> m < int (length segs)
        \<and> startTime (segs ! nat m) \<le> t \<and> t \<le> endTime (segs ! nat m)"
      using 1(2) [OF True mid_def at hi 1(3) 1(4)] 1(5,6,8,9,10) mid by simp
    then show ?thesis
      using True at hi by (subst bsearch.simps) (simp add: mid_def [symmetric])
  next
    case found
    then show ?thesis
      using True at mid 1(5,6) by (subst bsearch.simps) (simp add: mid_def [symmetric])
  qed
qed

lemma precompute_ready:
  assumes "controller_inv c" and "2 \<le> length (keyframes c)"
    and "precomputeSegments c = Some c1"
  shows "ready c1"
    and "keyframes c1 = keyframes c"
    and "lastSegment c1 = lastSegment c"
    and "segmentsCached c1"
    and "lastTime c1 = lastTime c"
    and "cachedTransform c1 = cachedTransform c"
  using assms
  by (auto simp add: controller_inv_def precomputeSegments_def ready_def
      split: if_splits option.splits)

lemma ready_segments:
  assumes "ready c"
  shows "segments c \<noteq> []" and "int (length (segments c)) = int (length (keyframes c)) - 1"
proof -
  have "length (segments c) = length (keyframes c) - 1"
    using assms buildSegments_Some(1) by (simp add: ready_def)
  moreover have "2 \<le> length (keyframes c)" using assms by (simp add: ready_def)
  ultimately show "segments c \<noteq> []"
    and "int (length (segments c)) = int (length (keyframes c)) - 1"
    by auto
qed

lemma ready_makeSegment:
  assumes "ready c" and "j < length (segments c)"
  shows "makeSegment (keyframes c) j = Some (segments c ! j)"
proof -
  have "j + 1 < length (keyframes c)"
    using ready_segments(2) [OF assms(1)] assms(2) by linarith
  then show ?thesis using assms(1) buildSegments_Some(2) by (simp add: ready_def)
qed

lemma segment_times:
  assumes "ready c" and "j < length (segments c)"
  shows "startTime (segments c ! j) = time (keyframes c ! j)"
    and "endTime (segments c ! j) = time (keyframes c ! (j + 1))"
  using makeSegment_fields(1,2) [OF ready_makeSegment [OF assms]] by simp_all

lemma covers_ready:
  assumes "ready c" and "0 \<le> j" and "j < int (length (keyframes c)) - 1"
  shows "covers (segments c) j t = Some (hit c t j)"
proof -
  have "nat j < length (segments c)"
    using assms(2,3) ready_segments(2) [OF assms(1)] by linarith
  then show ?thesis
    using assms(2,3) segment_times [OF assms(1), of "nat j"] ready_segments(2) [OF assms(1)]
    by (simp add: covers_def seg_at_def hit_def)
qed

lemma findSegment_ready:
  assumes "ready c"
  shows "findSegment c t =
     (if hit c t (lastSegment c) then Some (lastSegment c)
      else if hit c t (lastSegment c + 1) then Some (lastSegment c + 1)
      else if hit c t (lastSegment c - 1) then Some (lastSegment c - 1)
      else bsearch (segments c) t 0 (int (length (keyframes c)) - 2))"
proof -
  define ls where "ls = lastSegment c"
  define n where "n = int (length (segments c))"
  have n: "n = int (length (keyframes c)) - 1" and n1: "1 \<le> n"
    using ready_segments [OF assms] assms by (simp_all add: n_def ready_def)
  have ls: "0 \<le> ls" "ls = 0 \<or> ls < n"
    using assms by (simp_all add: ls_def ready_def n)
  have first: "(if ls < n then covers (segments c) ls t else Some False) = Some (hit c t ls)"
  proof (cases "ls < n")
    case True
    then show ?thesis using covers_ready [OF assms ls(1)] by (simp add: n)
  next
    case False
    then show ?thesis by (simp add: hit_def n)
  qed
  have second: "(if ls + 1 < n then covers (segments c) (ls + 1) t else Some False)
      = Some (hit c t (ls + 1))"
  proof (cases "ls + 1 < n")
    case True
    then show ?thesis using covers_ready [OF assms, of "ls + 1"] ls(1) by (simp add: n)
  next
    case False
    then show ?thesis by (simp add: hit_def n)
  qed
  have third: "(if ls > 0 then covers (segments c) (ls - 1) t else Some False)
      = Some (hit c t (ls - 1))"
  proof (cases "ls > 0")
    case True
    then have "ls - 1 < n - 0" using ls(2) by simp
    then show ?thesis using covers_ready [OF assms, of "ls - 1"] True by (simp add: n)
  next
    case False
    then show ?thesis by (simp add: hit_def)
  qed
  have two: "\<not> length (keyframes c) < 2" using assms by (simp add: ready_def)
  have "findSegment c t =
     (case Some (hit c t ls) of None \<Rightarrow> None | Some True \<Rightarrow> Some ls
      | Some False \<Rightarrow>
         (case Some (hit c t (ls + 1)) of None \<Rightarrow> None | Some True \<Rightarrow> Some (ls + 1)
          | Some False \<Rightarrow>
             (case Some (hit c t (ls - 1)) of None \<Rightarrow> None | Some True \<Rightarrow> Some (ls - 1)
              | Some False \<Rightarrow> bsearch (segments c) t 0 (n - 1))))"
    by (simp only: findSegment_def Let_def two if_False ls_def [symmetric] n_def [symmetric]
        first second third)
  then show ?thesis
    by (simp add: ls_def n algebra_simps)
qed

lemma findSegment_range:
  assumes "ready c"
  shows "\<exists>i. findSegment c t = Some i \<and> 0 \<le> i \<and> i < int (length (keyframes c)) - 1"
proof -
  have "\<exists>i. bsearch (segments c) t 0 (int (length (keyframes c)) - 2) = Some i
      \<and> 0 \<le> i \<and> i < int (length (segments c))"
    using bsearch_in_range [of 0 "int (length (keyframes c)) - 2" "segments c" t]
      ready_segments [OF assms] by simp
  then show ?thesis
    using ready_segments(2) [OF assms]
    by (auto simp add: findSegment_ready [OF assms] hit_def)
qed

lemma increasing_nth:
  assumes "times_increasing kfs" and "i < j" and "j < length kfs"
  shows "time (kfs ! i) < time (kfs ! j)"
  using assms by (simp add: times_increasing_def sorted_wrt_iff_nth_less)

lemma increasing_nth_le:
  assumes "times_increasing kfs" and "i \<le> j" and "j < length kfs"
  shows "time (kfs ! i) \<le> time (kfs ! j)"
  using increasing_nth [OF assms(1), of i j] assms(2,3) by (cases "i = j") auto

lemma increasing_nth_rev:
  assumes "times_increasing kfs" and "time (kfs ! i) \<le> time (kfs ! j)"
    and "i < length kfs" and "j < length kfs"
  shows "i \<le> j"
  using increasing_nth [OF assms(1), of j i] assms(2,3) by (cases "j < i") auto

lemma findSegment_covering:
  assumes "ready c" and "times_increasing (keyframes c)" and "hit c t j0"
  shows "\<exists>m. findSegment c t = Some m \<and> hit c t m"
proof -
  let ?segs = "segments c"
  have len: "int (length ?segs) = int (length (keyframes c)) - 1"
    using ready_segments(2) [OF assms(1)] .
  have starts: "\<forall>i j. i \<le> j \<longrightarrow> j < length ?segs \<longrightarrow> startTime (?segs ! i) \<le> startTime (?segs ! j)"
  proof (intro allI impI)
    fix i j assume "i \<le> j" "j < length ?segs"
    then show "startTime (?segs ! i) \<le> startTime (?segs ! j)"
      using segment_times(1) [OF assms(1), of i] segment_times(1) [OF assms(1), of j]
        increasing_nth_le [OF assms(2), of i j] len by simp
  qed
  have ends: "\<forall>i j. i \<le> j \<longrightarrow> j < length ?segs \<longrightarrow> endTime (?segs ! i) \<le> endTime (?segs ! j)"
  proof (intro allI impI)
    fix i j assume "i \<le> j" "j < length ?segs"
    then show "endTime (?segs ! i) \<le> endTime (?segs ! j)"
      using segment_times(2) [OF assms(1), of i] segment_times(2) [OF assms(1), of j]
        increasing_nth_le [OF assms(2), of "i + 1" "j + 1"] len by simp
  qed
  have j0: "0 \<le> j0" "j0 < int (length ?segs)"
    using assms(3) len by (simp_all add: hit_def)
  then have j0n: "nat j0 < length ?segs" by linarith
  have "startTime (?segs ! nat j0) \<le> t" "t \<le> endTime (?segs ! nat j0)"
    using assms(3) segment_times [OF assms(1) j0n] by (simp_all add: hit_def)
  then have "\<exists>m. bsearch ?segs t 0 (int (length (keyframes c)) - 2) = Some m \<and> 0 \<le> m
      \<and> m < int (length ?segs) \<and> startTime (?segs ! nat m) \<le> t \<and> t \<le> endTime (?segs ! nat m)"
    using bsearch_covering [OF starts ends, of 0 "int (length (keyframes c)) - 2" j0 t] j0 len
    by simp
  then obtain m where m: "bsearch ?segs t 0 (int (length (keyframes c)) - 2) = Some m"
      "0 \<le> m" "m < int (length ?segs)"
      "startTime (?segs ! nat m) \<le> t" "t \<le> endTime (?segs ! nat m)"
    by blast
  have "nat m < length ?segs" using m(2,3) by simp
  then have "hit c t m"
    using m segment_times [OF assms(1), of "nat m"] len by (simp add: hit_def)
  with m(1) show ?thesis
    by (auto simp add: findSegment_ready [OF assms(1)])
qed

lemma last_is_latest_nth:
  assumes "last_is_latest kfs" and "i + 1 < length kfs"
  shows "time (kfs ! i) < time (last kfs)"
proof -
  have "i < length (butlast kfs)" using assms(2) by simp
  then have "butlast kfs ! i \<in> set (butlast kfs)" by (rule nth_mem)
  moreover have "butlast kfs ! i = kfs ! i"
    using \<open>i < length (butlast kfs)\<close> by (rule nth_butlast)
  ultimately show ?thesis
    using assms(1) by (simp add: last_is_latest_def list_all_iff)
qed

lemma first_is_earliest_nth:
  assumes "first_is_earliest kfs" and "0 < i" and "i < length kfs"
  shows "time (kfs ! 0) < time (kfs ! i)"
proof -
  obtain k ks where kfs: "kfs = k # ks" using assms(3) by (cases kfs) auto
  obtain j where j: "i = Suc j" using assms(2) by (cases i) auto
  then have "ks ! j \<in> set ks" using assms(3) kfs by simp
  then show ?thesis
    using assms(1) kfs j by (simp add: first_is_earliest_def list_all_iff)
qed

lemma findSegment_at_or_after_end:
  assumes "ready c" and "last_is_latest (keyframes c)" and "time (last (keyframes c)) \<le> t"
  shows "findSegment c t = Some (int (length (keyframes c)) - 2)"
proof -
  let ?kfs = "keyframes c"
  let ?n = "length ?kfs"
  have two: "2 \<le> ?n" using assms(1) by (simp add: ready_def)
  have before: "time (?kfs ! j) < t" if "j + 1 < ?n" for j
    using last_is_latest_nth [OF assms(2) that] assms(3) by simp
  have only: "j = int ?n - 2" if "hit c t j" for j
  proof (rule ccontr)
    assume other: "j \<noteq> int ?n - 2"
    have h: "0 \<le> j" "j < int ?n - 1" "t \<le> time (?kfs ! (nat j + 1))"
      using that by (simp_all add: hit_def)
    then have "nat j + 1 + 1 < ?n" using other by linarith
    then show False using before [of "nat j + 1"] h(3) by simp
  qed
  have "bsearch (segments c) t 0 (int ?n - 2) = Some (int ?n - 2)"
  proof (rule bsearch_upto_last)
    show "int ?n - 2 = int (length (segments c)) - 1"
      using ready_segments(2) [OF assms(1)] by simp
    show "segments c \<noteq> []" using ready_segments(1) [OF assms(1)] .
    fix j :: int assume j: "0 \<le> j" "j \<le> int ?n - 2"
    then have a: "nat j < length (segments c)" using ready_segments(2) [OF assms(1)] by simp
    have b: "nat j + 1 < ?n" using j by linarith
    have c: "nat j + 1 + 1 < ?n" if "j < int ?n - 2" using that j by linarith
    show "\<not> t < startTime (segments c ! nat j)
        \<and> (j < int ?n - 2 \<longrightarrow> endTime (segments c ! nat j) < t)"
      using segment_times [OF assms(1) a] before [OF b] before [of "nat j + 1"] c by auto
  qed simp
  then show ?thesis
    using only [of "lastSegment c"] only [of "lastSegment c + 1"] only [of "lastSegment c - 1"]
    by (auto simp add: findSegment_ready [OF assms(1)])
qed

lemma findSegment_at_or_before_start:
  assumes "ready c" and "first_is_earliest (keyframes c)" and "t \<le> time (keyframes c ! 0)"
  shows "findSegment c t = Some 0"
proof -
  let ?kfs = "keyframes c"
  let ?n = "length ?kfs"
  have two: "2 \<le> ?n" using assms(1) by (simp add: ready_def)
  have after: "t < time (?kfs ! j)" if "0 < j" "j < ?n" for j
    using first_is_earliest_nth [OF assms(2) that] assms(3) by simp
  have only: "j = 0" if "hit c t j" for j
  proof (rule ccontr)
    assume other: "j \<noteq> 0"
    have h: "0 \<le> j" "j < int ?n - 1" "time (?kfs ! nat j) \<le> t"
      using that by (simp_all add: hit_def)
    then have "0 < nat j" "nat j < ?n" using other by linarith+
    then show False using after [of "nat j"] h(3) by simp
  qed
  have "bsearch (segments c) t 0 (int ?n - 2) = Some 0"
  proof (rule bsearch_down_to_first)
    show "int ?n - 2 < int (length (segments c))"
      using ready_segments(2) [OF assms(1)] by simp
    show "segments c \<noteq> []" using ready_segments(1) [OF assms(1)] .
    fix j :: int assume j: "0 \<le> j" "j \<le> int ?n - 2"
    then have a: "nat j < length (segments c)" using ready_segments(2) [OF assms(1)] by simp
    have b: "nat j + 1 < ?n" "0 < nat j + 1" using j by linarith+
    have c: "0 < nat j" "nat j < ?n" if "0 < j" using that j by linarith+
    show "\<not> endTime (segments c ! nat j) < t
        \<and> (0 < j \<longrightarrow> t < startTime (segments c ! nat j))"
      using segment_times [OF assms(1) a] after [OF b(2,1)] after [of "nat j"] c by auto
  qed simp
  then show ?thesis
    using only [of "lastSegment c"] only [of "lastSegment c + 1"] only [of "lastSegment c - 1"]
    by (auto simp add: findSegment_ready [OF assms(1)])
qed

subsection \<open>The invariant of reachable states\<close>

lemma push_all: "foldl (\<lambda>ks kf. ks @ [kf]) ks kfs = ks @ kfs"
  by (induction kfs arbitrary: ks) simp_all

lemma addMultipleKeyFrames_eq:
  "addMultipleKeyFrames kfs c =
     c\<lparr>keyframes := keyframes c @ kfs, segmentsCached := False, lastTime := - 1\<rparr>"
  by (simp add: addMultipleKeyFrames_def push_all)

lemma addKeyFrame_fold:
  "kfs \<noteq> [] \<Longrightarrow> foldl (\<lambda>s kf. addKeyFrame kf s) c kfs =
     c\<lparr>keyframes := keyframes c @ kfs, segmentsCached := False, lastTime := - 1\<rparr>"
proof (induction kfs arbitrary: c)
  case Nil
  then show ?case by simp
next
  case (Cons kf kfs)
  show ?case
  proof (cases "kfs = []")
    case True
    then show ?thesis by (simp add: addKeyFrame_def)
  next
    case False
    then show ?thesis using Cons.IH [of "addKeyFrame kf c"] by (simp add: addKeyFrame_def)
  qed
qed

lemma getTransformationMatrix_segment:
  assumes "controller_inv c" and "2 \<le> length (keyframes c)" and "\<not> cacheHit c t"
    and "precomputeSegments c = Some c1"
    and "findSegment c1 t = Some i"
    and "0 \<le> i" and "i < int (length (keyframes c)) - 1"
  shows "getTransformationMatrix lm c t useQuat useBSplines =
     remember (c1\<lparr>lastSegment := i\<rparr>) t
       (segmentPose lm (segments c1 ! nat i) t useQuat useBSplines)"
proof -
  have r: "ready c1" and k: "keyframes c1 = keyframes c"
    using precompute_ready [OF assms(1,2,4)] by simp_all
  have len: "int (length (segments c1)) = int (length (keyframes c)) - 1"
    using ready_segments(2) [OF r] k by simp
  have at: "seg_at (segments c1) i = Some (segments c1 ! nat i)"
    using assms(6,7) len by (simp add: seg_at_def)
  have ne: "keyframes c \<noteq> []" "length (keyframes c) \<noteq> 1" using assms(2) by auto
  show ?thesis
    using ne assms(3,4,5,7) at len
    by (simp add: getTransformationMatrix_def Let_def)
qed

lemma getTransformationMatrix_hangs:
  assumes "2 \<le> length (keyframes c)" and "\<not> cacheHit c t"
    and "precomputeSegments c = None"
  shows "getTransformationMatrix lm c t useQuat useBSplines = None"
proof -
  have ne: "keyframes c \<noteq> []" "length (keyframes c) \<noteq> 1" using assms(1) by auto
  show ?thesis using ne assms(2,3) by (simp add: getTransformationMatrix_def)
qed

lemma controller_inv_initial: "controller_inv initial_controller"
  by (simp add: controller_inv_def initial_controller_def)

lemma controller_inv_addKeyFrame: "controller_inv c \<Longrightarrow> controller_inv (addKeyFrame kf c)"
  by (auto simp add: controller_inv_def addKeyFrame_def)

lemma controller_inv_addMultipleKeyFrames:
  "controller_inv c \<Longrightarrow> controller_inv (addMultipleKeyFrames kfs c)"
  by (auto simp add: controller_inv_def addMultipleKeyFrames_eq)

lemma controller_inv_clearKeyFrames: "controller_inv (clearKeyFrames c)"
  by (simp add: controller_inv_def clearKeyFrames_def)

lemma controller_inv_query:
  assumes "controller_inv c"
    and "getTransformationMatrix lm c t useQuat useBSplines = Some (m, c')"
  shows "controller_inv c'"
proof -
  have "length (keyframes c) = 0 \<or> length (keyframes c) = 1 \<or> 2 \<le> length (keyframes c)"
    by linarith
  then consider (empty) "keyframes c = []"
    | (hit) "keyframes c \<noteq> []" "cacheHit c t"
    | (single) "keyframes c \<noteq> []" "\<not> cacheHit c t" "length (keyframes c) = 1"
    | (many) "\<not> cacheHit c t" "2 \<le> length (keyframes c)"
    by (cases "cacheHit c t") auto
  then show ?thesis
  proof cases
    case empty
    with assms show ?thesis by (simp add: getTransformationMatrix_def)
  next
    case hit
    with assms show ?thesis by (simp add: getTransformationMatrix_def)
  next
    case single
    with assms show ?thesis
      by (auto simp add: getTransformationMatrix_def remember_def controller_inv_def)
  next
    case many
    obtain c1 where c1: "precomputeSegments c = Some c1"
      using getTransformationMatrix_hangs [OF many(2,1), of lm useQuat useBSplines] assms(2)
      by (cases "precomputeSegments c") simp_all
    have r: "ready c1" and k: "keyframes c1 = keyframes c" and sc: "segmentsCached c1"
      using precompute_ready [OF assms(1) many(2) c1] by simp_all
    obtain i where i: "findSegment c1 t = Some i" "0 \<le> i" "i < int (length (keyframes c)) - 1"
      using findSegment_range [OF r, of t] k by auto
    have "c' = c1\<lparr>lastSegment := i, lastTime := t,
        cachedTransform := segmentPose lm (segments c1 ! nat i) t useQuat useBSplines\<rparr>"
      using getTransformationMatrix_segment [OF assms(1) many(2,1) c1 i, of lm useQuat useBSplines]
        assms(2)
      by (simp add: remember_def)
    then show ?thesis
      using r k i by (simp add: controller_inv_def ready_def)
  qed
qed

lemma reachable_inv: "reachable lm c \<Longrightarrow> controller_inv c"
proof (induction rule: reachable.induct)
  case initial
  show ?case by (rule controller_inv_initial)
next
  case (added c kf)
  then show ?case by (simp add: controller_inv_addKeyFrame)
next
  case (batch c kfs)
  then show ?case by (simp add: controller_inv_addMultipleKeyFrames)
next
  case (cleared c)
  show ?case by (rule controller_inv_clearKeyFrames)
next
  case (queried c t useQuat useBSplines m c')
  then show ?case using controller_inv_query by blast
qed

subsection \<open>Evaluation inside a segment\<close>

lemma evaluate_segment:
  assumes "controller_inv c" and "2 \<le> length (keyframes c)" and "\<not> cacheHit c t"
    and "precomputeSegments c = Some c1"
  shows "\<exists>i. findSegment c1 t = Some i
      \<and> 0 \<le> i \<and> nat i + 1 < length (keyframes c) \<and> nat i < length (segments c1)
      \<and> (\<forall>useQuat useBSplines. getTransformationMatrix lm c t useQuat useBSplines
             = remember (c1\<lparr>lastSegment := i\<rparr>) t
                 (segmentPose lm (segments c1 ! nat i) t useQuat useBSplines))"
proof -
  have r: "ready c1" and k: "keyframes c1 = keyframes c"
    using precompute_ready [OF assms(1,2,4)] by simp_all
  obtain i where i: "findSegment c1 t = Some i" "0 \<le> i" "i < int (length (keyframes c)) - 1"
    using findSegment_range [OF r, of t] k by auto
  have "nat i + 1 < length (keyframes c)" using i(2,3) by linarith
  moreover have "nat i < length (segments c1)"
    using i(2,3) ready_segments(2) [OF r] k by simp
  ultimately show ?thesis
    using getTransformationMatrix_segment [OF assms i] i by blast
qed

lemma evaluate_single:
  assumes "length (keyframes c) = 1" and "\<not> cacheHit c t"
  shows "evaluate lm c t useQuat useBSplines
     = Some (keyframePose lm useQuat (keyframes c ! 0))"
proof -
  have "keyframes c \<noteq> []" using assms(1) by auto
  then show ?thesis
    using assms by (simp add: evaluate_def getTransformationMatrix_def remember_def)
qed

subsection \<open>Evaluation on concrete numbers\<close>

lemmas fl_eval = fl_def ulp_def expo_def expo_up.simps expo_down.simps round_even_def Let_def

lemmas farith = fadd_def fsub_def fmul_def fdiv_def

lemma libm_cr_zero [simp]: "sinf libm_cr 0 = 0" "cosf libm_cr 0 = 1" "acosf libm_cr 1 = 0"
  by (simp_all add: libm_cr_def)

lemma sixth: "fl (1 / 6) = 11184811 / 67108864"
  by (simp add: fl_eval)

lemma sixth_30: "fl (167772165 / 33554432) = 5"
  by (simp add: fl_eval)

lemma sixth_6: "fl (33554433 / 33554432) = 1"
  by (simp add: fl_eval)

lemma eulerRotation_zero: "eulerRotation libm_cr (Vec3 0 0 0) = mat4_identity"
  by (simp add: eulerRotation_def rotate_def radians_def vnormalize_def vdot_def smul_def
      mat4_identity_def v4add_def v4smul_def Let_def farith fsqrt_def)

lemma wrap_zero: "wrap_down 0 0 = Some 0" "wrap_up 0 0 = Some 0"
  by (simp_all add: wrap_down.simps wrap_up.simps farith)

lemma normalizeAngles_zero: "normalizeAngles (Vec3 0 0 0) (Vec3 0 0 0) = Some (Vec3 0 0 0)"
  by (simp add: normalizeAngles_def normalizeAxis_def wrap_zero)

subsection \<open>Sample runs\<close>

lemma two_keys_eq: "two_keys = \<lparr>keyframes = [kf_a, kf_b], lastSegment = 0, lastTime = - 1,
   cachedTransform = mat4_identity, segments = [], segmentsCached = False\<rparr>"
  by (simp add: two_keys_def addMultipleKeyFrames_def initial_controller_def)

lemma three_keys_eq: "three_keys = \<lparr>keyframes = [kf_a, kf_b, kf_c], lastSegment = 0,
   lastTime = - 1, cachedTransform = mat4_identity, segments = [], segmentsCached = False\<rparr>"
  by (simp add: three_keys_def two_keys_eq addKeyFrame_def)

lemma reachable_two_keys: "reachable lm two_keys"
  unfolding two_keys_def by (rule reachable.batch [OF reachable.initial])

lemma reachable_three_keys: "reachable lm three_keys"
  unfolding three_keys_def by (rule reachable.added [OF reachable_two_keys])

lemma makeSegment_two_keys: "makeSegment [kf_a, kf_b] 0 = Some seg_ab"
  by (simp add: makeSegment_def kf_a_def kf_b_def normalizeAngles_zero seg_ab_def Let_def
      fsub_def fl_int_exact)

lemma buildSegments_two_keys: "buildSegments [kf_a, kf_b] = Some [seg_ab]"
  by (simp add: buildSegments_def makeSegment_two_keys)

lemma precompute_two_keys: "precomputeSegments two_keys = Some two_keys_built"
  by (simp add: precomputeSegments_def two_keys_eq buildSegments_two_keys two_keys_built_def)

lemma precompute_built:
  "segmentsCached c \<Longrightarrow> precomputeSegments c = Some c"
  by (simp add: precomputeSegments_def)

lemma run_in_remembered_segment:
  assumes "controller_inv c" and "2 \<le> length (keyframes c)" and "\<not> cacheHit c t"
    and "precomputeSegments c = Some c1"
    and "hit c1 t (lastSegment c)"
  shows "getTransformationMatrix lm c t useQuat useBSplines =
     remember (c1\<lparr>lastSegment := lastSegment c\<rparr>) t
       (segmentPose lm (segments c1 ! nat (lastSegment c)) t useQuat useBSplines)"
proof -
  have r: "ready c1"
    and ls: "lastSegment c1 = lastSegment c"
    and kf: "keyframes c1 = keyframes c"
    using precompute_ready [OF assms(1,2,4)] by simp_all
  have "findSegment c1 t = Some (lastSegment c)"
    using assms(5) by (simp add: findSegment_ready [OF r] ls)
  moreover have "0 \<le> lastSegment c" "lastSegment c < int (length (keyframes c)) - 1"
    using assms(5) by (simp_all add: hit_def kf)
  ultimately show ?thesis
    using getTransformationMatrix_segment [OF assms(1-4)] by blast
qed

lemma run_in_next_segment:
  assumes "controller_inv c" and "2 \<le> length (keyframes c)" and "\<not> cacheHit c t"
    and "precomputeSegments c = Some c1"
    and "\<not> hit c1 t (lastSegment c)"
    and "hit c1 t (lastSegment c + 1)"
  shows "getTransformationMatrix lm c t useQuat useBSplines =
     remember (c1\<lparr>lastSegment := lastSegment c + 1\<rparr>) t
       (segmentPose lm (segments c1 ! nat (lastSegment c + 1)) t useQuat useBSplines)"
proof -
  have r: "ready c1"
    and ls: "lastSegment c1 = lastSegment c"
    and kf: "keyframes c1 = keyframes c"
    using precompute_ready [OF assms(1,2,4)] by simp_all
  have "findSegment c1 t = Some (lastSegment c + 1)"
    using assms(5,6) by (simp add: findSegment_ready [OF r] ls)
  moreover have "0 \<le> lastSegment c + 1" "lastSegment c + 1 < int (length (keyframes c)) - 1"
    using assms(6) by (simp_all add: hit_def kf)
  ultimately show ?thesis
    using getTransformationMatrix_segment [OF assms(1-4)] by blast
qed

lemma pose_zero_angles:
  "fl x = x \<Longrightarrow> fl y = y \<Longrightarrow> fl z = z \<Longrightarrow>
   mat4_mul (translate mat4_identity (Vec3 x y z)) (eulerRotation libm_cr (Vec3 0 0 0))
     = translated x y z"
  by (simp add: eulerRotation_zero mat4_mul_def mat4_apply_def translate_def mat4_identity_def
      v4add_def v4smul_def translated_def farith)

lemma cacheHit_fresh: "lastTime c = - 1 \<Longrightarrow> \<not> cacheHit c t"
  by (simp add: cacheHit_def)

lemma segmentParam_seg_ab:
  "segmentParam seg_ab (- (1 / 2)) = 0" "segmentParam seg_ab 0 = 0" "segmentParam seg_ab 1 = 1"
  by (simp_all add: segmentParam_def seg_ab_def clamp_def farith fl_int_exact
      fl_exact [where k = 1])

lemma blend_seg_ab:
  "blendPose libm_cr seg_ab 0 False False = translated 0 0 0"
  "blendPose libm_cr seg_ab 0 False True = translated 1 0 0"
  "blendPose libm_cr seg_ab 1 False False = translated 6 0 0"
  "blendPose libm_cr seg_ab 1 False True = translated 5 0 0"
  by (simp_all add: blendPose_def seg_ab_def fastCatmullRomPosition_def fastCatmullRomEuler_def
      fastBSplinePosition_def fastBSplineEuler_def catmullRom_def bspline_def
      smul_def vadd_def vsub_def vneg_def farith fl_int_exact sixth sixth_30 sixth_6
      pose_zero_angles Let_def)

lemma findSegment_before_start:
  "findSegment two_keys_built (- 1 / 2) = Some 0"
  "findSegment queried_before_start (- 1 / 2) = Some 0"
  by (simp_all add: two_keys_built_def queried_before_start_def findSegment_def covers_def
      seg_at_def seg_ab_def bsearch.simps Let_def)

lemma controller_inv_samples:
  "controller_inv two_keys" "controller_inv two_keys_built" "controller_inv queried_before_start"
  "controller_inv bspline_queried_at_end" "controller_inv bspline_queried_at_start"
  by (simp_all add: controller_inv_def two_keys_eq two_keys_built_def queried_before_start_def
      bspline_queried_at_end_def bspline_queried_at_start_def buildSegments_two_keys)

lemma query_two_keys_before_start:
  "getTransformationMatrix libm_cr two_keys (- 1 / 2) False False
     = Some (translated 0 0 0, queried_before_start)"
proof -
  have "getTransformationMatrix libm_cr two_keys (- 1 / 2) False False =
     remember (two_keys_built\<lparr>lastSegment := 0\<rparr>) (- 1 / 2)
       (segmentPose libm_cr (segments two_keys_built ! nat 0) (- 1 / 2) False False)"
    by (rule getTransformationMatrix_segment
          [OF controller_inv_samples(1) _ _ precompute_two_keys findSegment_before_start(1)])
       (simp_all add: two_keys_eq cacheHit_fresh)
  then show ?thesis
    by (simp add: remember_def two_keys_built_def queried_before_start_def
        segmentPose_def segmentParam_seg_ab blend_seg_ab)
qed

lemma requery_with_bspline:
  "getTransformationMatrix libm_cr queried_before_start (- 1 / 2) False True
     = Some (translated 1 0 0, queried_before_start\<lparr>cachedTransform := translated 1 0 0\<rparr>)"
proof -
  have "getTransformationMatrix libm_cr queried_before_start (- 1 / 2) False True =
     remember (queried_before_start\<lparr>lastSegment := 0\<rparr>) (- 1 / 2)
       (segmentPose libm_cr (segments queried_before_start ! nat 0) (- 1 / 2) False True)"
    by (rule getTransformationMatrix_segment
          [OF controller_inv_samples(3) _ _ precompute_built findSegment_before_start(2)])
       (simp_all add: queried_before_start_def two_keys_built_def cacheHit_def)
  then show ?thesis
    by (simp add: remember_def two_keys_built_def queried_before_start_def
        segmentPose_def segmentParam_seg_ab blend_seg_ab)
qed

lemma run_two_keys_bspline_end:
  "getTransformationMatrix libm_cr two_keys 1 False True
     = Some (translated 5 0 0, bspline_queried_at_end)"
proof -
  have "getTransformationMatrix libm_cr two_keys 1 False True =
     remember (two_keys_built\<lparr>lastSegment := lastSegment two_keys\<rparr>) 1
       (segmentPose libm_cr (segments two_keys_built ! nat (lastSegment two_keys)) 1 False True)"
    by (rule run_in_remembered_segment [OF controller_inv_samples(1) _ _ precompute_two_keys])
       (simp_all add: two_keys_eq two_keys_built_def cacheHit_fresh hit_def kf_a_def kf_b_def)
  then show ?thesis
    by (simp add: remember_def two_keys_eq two_keys_built_def bspline_queried_at_end_def
        segmentPose_def segmentParam_seg_ab blend_seg_ab)
qed

lemma run_two_keys_bspline_start:
  "getTransformationMatrix libm_cr two_keys 0 False True
     = Some (translated 1 0 0, bspline_queried_at_start)"
proof -
  have "getTransformationMatrix libm_cr two_keys 0 False True =
     remember (two_keys_built\<lparr>lastSegment := lastSegment two_keys\<rparr>) 0
       (segmentPose libm_cr (segments two_keys_built ! nat (lastSegment two_keys)) 0 False True)"
    by (rule run_in_remembered_segment [OF controller_inv_samples(1) _ _ precompute_two_keys])
       (simp_all add: two_keys_eq two_keys_built_def cacheHit_fresh hit_def kf_a_def kf_b_def)
  then show ?thesis
    by (simp add: remember_def two_keys_eq two_keys_built_def bspline_queried_at_start_def
        segmentPose_def segmentParam_seg_ab blend_seg_ab)
qed

lemma seg_ab_at: "[seg_ab] ! 0 = seg_ab"
  by simp

lemma epsilon_float: "fl (13743895 / 137438953472) = 13743895 / 137438953472"
  by (rule fl_exact [where k = 37]) simp_all

lemma brief_keys_eq: "brief_keys = \<lparr>keyframes = [kf_a, kf_e], lastSegment = 0, lastTime = - 1,
   cachedTransform = mat4_identity, segments = [], segmentsCached = False\<rparr>"
  by (simp add: brief_keys_def addMultipleKeyFrames_def initial_controller_def)

lemma buildSegments_brief: "buildSegments [kf_a, kf_e] = Some [seg_ae]"
  by (simp add: buildSegments_def makeSegment_def kf_a_def kf_e_def normalizeAngles_zero
      seg_ab_def seg_ae_def Let_def fsub_def epsilon_float)

lemma blend_seg_ae:
  "blendPose libm_cr seg_ae t useQuat useBSplines = blendPose libm_cr seg_ab t useQuat useBSplines"
  by (simp add: blendPose_def seg_ae_def fastCatmullRomPosition_def fastCatmullRomEuler_def
      fastBSplinePosition_def fastBSplineEuler_def)

lemma segmentParam_seg_ae:
  "segmentParam seg_ae 0 = 0" "segmentParam seg_ae (13743895 / 137438953472) = 1"
  by (simp_all add: segmentParam_def seg_ae_def seg_ab_def clamp_def farith epsilon_float)

lemma run_brief_start:
  "getTransformationMatrix libm_cr brief_keys 0 False False
     = Some (translated 0 0 0, brief_queried)"
proof -
  have c1: "precomputeSegments brief_keys = Some (rebuilt brief_keys [seg_ae])"
    by (simp add: precomputeSegments_def brief_keys_eq buildSegments_brief rebuilt_def)
  have "getTransformationMatrix libm_cr brief_keys 0 False False =
     remember ((rebuilt brief_keys [seg_ae])\<lparr>lastSegment := lastSegment brief_keys\<rparr>) 0
       (segmentPose libm_cr (segments (rebuilt brief_keys [seg_ae]) ! nat (lastSegment brief_keys))
          0 False False)"
    by (rule run_in_remembered_segment [OF _ _ _ c1])
       (simp_all add: brief_keys_eq rebuilt_def controller_inv_def cacheHit_fresh hit_def
          kf_a_def kf_e_def)
  then show ?thesis
    by (simp add: remember_def brief_keys_eq rebuilt_def brief_queried_def
        segmentPose_def segmentParam_seg_ae blend_seg_ae blend_seg_ab)
qed

lemma controller_inv_brief: "controller_inv brief_keys" "controller_inv brief_queried"
  by (simp_all add: controller_inv_def brief_keys_eq brief_queried_def buildSegments_brief)

lemma run_brief_again:
  "getTransformationMatrix libm_cr brief_queried (13743895 / 137438953472) False False
     = Some (translated 6 0 0,
             brief_queried\<lparr>lastTime := 13743895 / 137438953472,
                            cachedTransform := translated 6 0 0\<rparr>)"
proof -
  have "getTransformationMatrix libm_cr brief_queried (13743895 / 137438953472) False False =
     remember (brief_queried\<lparr>lastSegment := lastSegment brief_queried\<rparr>)
       (13743895 / 137438953472)
       (segmentPose libm_cr (segments brief_queried ! nat (lastSegment brief_queried))
          (13743895 / 137438953472) False False)"
    by (rule run_in_remembered_segment [OF controller_inv_brief(2) _ _ precompute_built])
       (simp_all add: brief_queried_def cacheHit_def hit_def
          kf_a_def kf_e_def TIME_EPSILON_def fsub_def epsilon_float)
  then show ?thesis
    by (simp add: remember_def brief_queried_def
        segmentPose_def segmentParam_seg_ae blend_seg_ae blend_seg_ab)
qed

subsection \<open>The query cache\<close>

text \<open>
  Claim C5, as the code has it. For a store that is not empty and a state whose cached
  query time is not negative, a call whose time differs from the cached time by less
  than the \<open>float\<close> constant \<open>0.0001f\<close>, the difference taken in \<open>float\<close> arithmetic as
  the code takes it, returns the cached transform and leaves the controller as it is,
  whatever the orientation mode and the spline family of the call: segments are
  neither rebuilt nor evaluated.
\<close>

theorem cache_hit_returns_cached:
  assumes "keyframes c \<noteq> []" and "0 \<le> lastTime c"
    and "\<bar>fsub t' (lastTime c)\<bar> < 13743895 / 137438953472"
  shows "getTransformationMatrix lm c t' useQuat useBSplines = Some (cachedTransform c, c)"
  using assms by (simp add: getTransformationMatrix_def cacheHit_def TIME_EPSILON_def)

theorem cache_hit_returns_cached_witness:
  "keyframes bspline_queried_at_end \<noteq> []
   \<and> (0::real) \<le> lastTime bspline_queried_at_end
   \<and> fsub (16385 / 16384) (lastTime bspline_queried_at_end) = 1 / 16384
   \<and> \<bar>fsub (16385 / 16384) (lastTime bspline_queried_at_end)\<bar> < 13743895 / 137438953472
   \<and> getTransformationMatrix libm_cr bspline_queried_at_end (16385 / 16384) True False
       = Some (translated 5 0 0, bspline_queried_at_end)"
proof -
  have d: "fsub (16385 / 16384) (lastTime bspline_queried_at_end) = 1 / 16384"
    by (simp add: bspline_queried_at_end_def two_keys_built_def fsub_def
        fl_exact [where k = 14])
  show ?thesis
    using cache_hit_returns_cached [of bspline_queried_at_end "16385 / 16384" libm_cr True False]
    by (simp add: d) (simp add: bspline_queried_at_end_def two_keys_built_def kf_a_def)
qed

text \<open>
  Two runs against the claim as stated. The claim takes every cached time other than
  the sentinel -1 as valid, while the code takes the negative ones as invalid: after a
  query at time -1/2 on two keyframes the cached time is -1/2, and a second query at
  the same time under the other spline family evaluates the spline again and returns
  another transform. And the bound of the code is the \<open>float\<close> \<open>0.0001f\<close>, which lies
  below one ten-thousandth: with keyframes at the times 0 and \<open>0.0001f\<close>, after a query
  at time 0 the query at time \<open>0.0001f\<close>, less than 1/10000 away, is computed anew and
  returns the pose of the second keyframe.
\<close>

theorem cache_hit_counterexample:
  "getTransformationMatrix libm_cr two_keys (- 1 / 2) False False
      = Some (translated 0 0 0, queried_before_start)
   \<and> keyframes queried_before_start \<noteq> []
   \<and> lastTime queried_before_start = - 1 / 2
   \<and> lastTime queried_before_start \<noteq> - 1
   \<and> \<bar>(- 1 / 2) - lastTime queried_before_start\<bar> < 1 / 10000
   \<and> cachedTransform queried_before_start = translated 0 0 0
   \<and> getTransformationMatrix libm_cr queried_before_start (- 1 / 2) False True
      = Some (translated 1 0 0, queried_before_start\<lparr>cachedTransform := translated 1 0 0\<rparr>)
   \<and> translated 1 0 0 \<noteq> cachedTransform queried_before_start
   \<and> getTransformationMatrix libm_cr brief_keys 0 False False
      = Some (translated 0 0 0, brief_queried)
   \<and> keyframes brief_queried \<noteq> []
   \<and> lastTime brief_queried = 0
   \<and> fl (13743895 / 137438953472) = 13743895 / 137438953472
   \<and> \<bar>13743895 / 137438953472 - lastTime brief_queried\<bar> < 1 / 10000
   \<and> cachedTransform brief_queried = translated 0 0 0
   \<and> getTransformationMatrix libm_cr brief_queried (13743895 / 137438953472) False False
      = Some (translated 6 0 0,
              brief_queried\<lparr>lastTime := 13743895 / 137438953472,
                             cachedTransform := translated 6 0 0\<rparr>)
   \<and> translated 6 0 0 \<noteq> cachedTransform brief_queried"
  using query_two_keys_before_start requery_with_bspline run_brief_start run_brief_again
    epsilon_float
  by (simp add: queried_before_start_def two_keys_built_def brief_queried_def kf_a_def
      translated_def mat4_identity_def)

subsection \<open>Store mutation\<close>



subsection \<open>Batch insertion\<close>

text \<open>
  Claim C7, as the code has it. For a list of keyframes that is not empty,
  \<open>addMultipleKeyFrames\<close> leaves the controller in the very state that one
  \<open>addKeyFrame\<close> for each element, in order, leads to. For the empty list it still
  invalidates both caches, while no call of \<open>addKeyFrame\<close> changes nothing.
\<close>

theorem appendBatch_refines_append:
  "(kfs \<noteq> [] \<longrightarrow> addMultipleKeyFrames kfs c = addEach kfs c)
   \<and> addMultipleKeyFrames [] c = c\<lparr>segmentsCached := False, lastTime := - 1\<rparr>
   \<and> addEach [] c = c"
  by (simp add: addEach_def addMultipleKeyFrames_eq addKeyFrame_fold)

theorem appendBatch_refines_append_witness:
  "[kf_a, kf_b] \<noteq> []
   \<and> addMultipleKeyFrames [kf_a, kf_b] initial_controller = addEach [kf_a, kf_b] initial_controller
   \<and> addEach [kf_a, kf_b] initial_controller
       = addKeyFrame kf_b (addKeyFrame kf_a initial_controller)"
  using appendBatch_refines_append [of "[kf_a, kf_b]" initial_controller]
  by (simp add: addEach_def)

text \<open>
  With the empty list the two call patterns differ: after one keyframe and a query at
  time 1 the cached time is 1, and \<open>addMultipleKeyFrames\<close> resets it to -1.
\<close>

theorem appendBatch_empty_counterexample:
  "getTransformationMatrix libm_cr (addKeyFrame kf_a initial_controller) 1 True False
      = Some (keyframePose libm_cr True kf_a, one_key_queried)
   \<and> lastTime (addMultipleKeyFrames [] one_key_queried) = - 1
   \<and> lastTime (addEach [] one_key_queried) = 1
   \<and> addMultipleKeyFrames [] one_key_queried \<noteq> addEach [] one_key_queried"
proof -
  have "getTransformationMatrix libm_cr (addKeyFrame kf_a initial_controller) 1 True False
      = Some (keyframePose libm_cr True kf_a, one_key_queried)"
    by (simp add: getTransformationMatrix_def addKeyFrame_def initial_controller_def
        cacheHit_def remember_def one_key_queried_def)
  moreover have "lastTime (addMultipleKeyFrames [] one_key_queried) = - 1"
    by (simp add: addMultipleKeyFrames_def)
  moreover have "lastTime (addEach [] one_key_queried) = 1"
    by (simp add: addEach_def one_key_queried_def)
  ultimately show ?thesis by force
qed

subsection \<open>The located segment\<close>

text \<open>
  Claim C10. In a reachable state with two keyframes or more, once \<open>precomputeSegments\<close>
  has built the segment array, \<open>findSegment\<close> returns, for every query time, an index
  between 0 and the segment count minus one: the end-of-animation branch of
  \<open>getTransformationMatrix\<close> is never taken, the read of the segment array that
  follows is in range, and a query without a cache hit returns the pose interpolated
  in that segment.
\<close>

theorem findSegment_within_segments:
  assumes "reachable lm c" and "2 \<le> length (keyframes c)"
    and "precomputeSegments c = Some c1"
  shows "\<exists>i seg. findSegment c1 t = Some i
      \<and> 0 \<le> i \<and> i \<le> int (length (segments c1)) - 1
      \<and> \<not> i \<ge> int (length (segments c1))
      \<and> seg_at (segments c1) i = Some seg
      \<and> (cacheHit c t \<or>
           getTransformationMatrix lm c t useQuat useBSplines =
             remember (c1\<lparr>lastSegment := i\<rparr>) t
               (segmentPose lm seg t useQuat useBSplines))"
proof -
  have inv: "controller_inv c" using reachable_inv [OF assms(1)] .
  have r: "ready c1" and k: "keyframes c1 = keyframes c"
    using precompute_ready [OF inv assms(2,3)] by simp_all
  have len: "int (length (segments c1)) = int (length (keyframes c)) - 1"
    using ready_segments(2) [OF r] k by simp
  obtain i where i: "findSegment c1 t = Some i" "0 \<le> i" "i < int (length (keyframes c)) - 1"
    using findSegment_range [OF r, of t] k by auto
  have at: "seg_at (segments c1) i = Some (segments c1 ! nat i)"
    using i(2,3) len by (simp add: seg_at_def)
  have "cacheHit c t \<or> getTransformationMatrix lm c t useQuat useBSplines =
      remember (c1\<lparr>lastSegment := i\<rparr>) t
        (segmentPose lm (segments c1 ! nat i) t useQuat useBSplines)"
    using getTransformationMatrix_segment [OF inv assms(2) _ assms(3) i] by blast
  with i at len show ?thesis by auto
qed

theorem findSegment_within_segments_witness:
  "reachable libm_cr two_keys \<and> 2 \<le> length (keyframes two_keys)
   \<and> precomputeSegments two_keys = Some two_keys_built
   \<and> findSegment two_keys_built (- 1 / 2) = Some 0
   \<and> int (length (segments two_keys_built)) = 1"
  using findSegment_within_segments [of libm_cr two_keys two_keys_built "- 1 / 2" False False]
    reachable_two_keys [of libm_cr] findSegment_before_start(1) precompute_two_keys
  by (simp add: two_keys_eq two_keys_built_def)

lemma on_grid_Ints: "on_grid k x \<longleftrightarrow> x * 2 ^ k \<in> \<int>"
  by (auto simp add: on_grid_def elim: Ints_cases)




lemma on_grid_numeral [simp]: "on_grid k (numeral n)"
  by (simp add: on_grid_Ints)












subsection \<open>Angle normalisation\<close>




lemma example_groups:
  "getlines CHR '';'' ''0,0,0:0,0,0;5,0,0:0,90,0'' = [''0,0,0:0,0,0'', ''5,0,0:0,90,0'']"
  "getlines CHR '';'' ''0,0,0;;5'' = [''0,0,0'', [], ''5'']"
  "getlines CHR '';'' ''a:b'' = [''a:b'']"
  "getlines CHR '';'' ''0,0,0:0,0,0;x:y'' = [''0,0,0:0,0,0'', ''x:y'']"
  by (simp_all add: getlines.simps)

lemma example_fields:
  "getlines CHR '','' ''0,0,0'' = [''0'', ''0'', ''0'']"
  "getlines CHR '','' ''5,0,0'' = [''5'', ''0'', ''0'']"
  "getlines CHR '','' ''0,90,0'' = [''0'', ''90'', ''0'']"
  "getlines CHR '','' ''a'' = [''a'']"
  "getlines CHR '','' ''x'' = [''x'']"
  by (simp_all add: getlines.simps)

lemma stof_decimal_samples:
  "stof_decimal ''0'' = Some 0" "stof_decimal ''5'' = Some 5" "stof_decimal ''90'' = Some 90"
  "stof_decimal ''a'' = None" "stof_decimal ''x'' = None"
  by (simp_all add: stof_decimal_def unsigned_decimal_def is_digit_def digit_val_def
      digits_val_def fl_int_exact)

subsection \<open>The textual keyframe specification\<close>

text \<open>
  Claim C9. The function is run on four texts, with the store \<open>two_keys\<close>. The text
  \<open>0,0,0:0,0,0;5,0,0:0,90,0\<close> gives the result \<open>true\<close> and a store with two keyframes, of
  the positions \<open>(0, 0, 0)\<close> and \<open>(5, 0, 0)\<close> and the angles \<open>(0, 0, 0)\<close> and \<open>(0, 90, 0)\<close>, at
  the times 0 and 2. On \<open>0,0,0;;5\<close>, where no group has a colon, every group is skipped,
  the result is \<open>false\<close> and the store is untouched. On \<open>a:b\<close>, where no group parses
  either, the conversion of \<open>a\<close> throws and the exception leaves the function: it
  returns nothing, where the claim has it return \<open>false\<close>. The same happens on a text
  whose first group is well formed and whose second is \<open>x:y\<close>.
\<close>

theorem parse_unreadable_number_escapes:
  "parseKeyFramesFromString libm_cr stof_decimal (Vec3 0 0 0) ''0,0,0:0,0,0;5,0,0:0,90,0''
        (Some two_keys) =
       Inr (True, Some (two_keys\<lparr>keyframes :=
                           [KeyFrame_euler libm_cr (Vec3 0 0 0) (Vec3 0 0 0) 0,
                            KeyFrame_euler libm_cr (Vec3 5 0 0) (Vec3 0 90 0) 2],
                         segments := [], segmentsCached := False, lastSegment := 0,
                         lastTime := - 1\<rparr>))
   \<and> parseKeyFramesFromString libm_cr stof_decimal (Vec3 0 0 0) ''0,0,0;;5'' (Some two_keys)
       = Inr (False, Some two_keys)
   \<and> parseKeyFramesFromString libm_cr stof_decimal (Vec3 0 0 0) ''a:b'' (Some two_keys)
       = Inl StofThrew
   \<and> parseKeyFramesFromString libm_cr stof_decimal (Vec3 0 0 0) ''a:b'' (Some two_keys)
       \<noteq> Inr (False, Some two_keys)
   \<and> parseKeyFramesFromString libm_cr stof_decimal (Vec3 0 0 0) ''0,0,0:0,0,0;x:y''
        (Some two_keys) = Inl StofThrew"
  by (simp add: parseKeyFramesFromString_def example_groups example_fields
      stof_decimal_samples vset_def Let_def addMultipleKeyFrames_eq clearKeyFrames_def
      timeStep_def fadd_def fl_int_exact)

end
